theory Spec2Isabelle
  imports Complex_Main
begin

section \<open>Values and errors\<close>

text \<open>
  The module under verification is \<^verbatim>\<open>population_structure/helper_funcs/helper_funcs.py\<close>.
  Its functions compute on Python integers, Python floats and numpy arrays of
  64-bit floats.

  Python exceptions are values of \<open>py_error\<close>; a function that may raise returns
  \<open>py_error + 'a\<close>, with \<open>Inl\<close> for the exception.
\<close>

datatype py_error = ValueError | ZeroDivisionError | OverflowError | IndexError | KeyError

definition err_bind :: "py_error + 'a \<Rightarrow> ('a \<Rightarrow> py_error + 'b) \<Rightarrow> py_error + 'b" where
  "err_bind m f = (case m of Inl e \<Rightarrow> Inl e | Inr v \<Rightarrow> f v)"

text \<open>
  A 64-bit float is modelled by its value: a finite number, one of the two
  infinities, or not-a-number. The arithmetic on finite values is exact real
  arithmetic: rounding of the elementary operations, overflow to infinity and
  the sign of zero are not modelled, because the order in which numpy sums an
  array is not fixed by its interface. The special values follow IEEE 754:
  a non-zero number divided by zero is an infinity, \<open>0 / 0\<close>, \<open>inf - inf\<close> and
  \<open>0 * inf\<close> are not-a-number, and not-a-number propagates.
  The one place where rounding is modelled exactly is the conversion that
  Python's integer true division performs (\<open>int_truediv\<close> below), since that
  rounding decides what \<open>comb\<close> returns.
\<close>

datatype float64 = Fin real | PInf | NInf | NaN

fun fneg :: "float64 \<Rightarrow> float64" where
  "fneg (Fin x) = Fin (- x)"
| "fneg PInf = NInf"
| "fneg NInf = PInf"
| "fneg NaN = NaN"

fun fadd :: "float64 \<Rightarrow> float64 \<Rightarrow> float64" where
  "fadd (Fin x) (Fin y) = Fin (x + y)"
| "fadd NaN _ = NaN"
| "fadd _ NaN = NaN"
| "fadd PInf NInf = NaN"
| "fadd NInf PInf = NaN"
| "fadd PInf _ = PInf"
| "fadd _ PInf = PInf"
| "fadd NInf _ = NInf"
| "fadd _ NInf = NInf"

fun fmul :: "float64 \<Rightarrow> float64 \<Rightarrow> float64" where
  "fmul (Fin x) (Fin y) = Fin (x * y)"
| "fmul NaN _ = NaN"
| "fmul _ NaN = NaN"
| "fmul PInf (Fin y) = (if y = 0 then NaN else if 0 < y then PInf else NInf)"
| "fmul NInf (Fin y) = (if y = 0 then NaN else if 0 < y then NInf else PInf)"
| "fmul (Fin x) PInf = (if x = 0 then NaN else if 0 < x then PInf else NInf)"
| "fmul (Fin x) NInf = (if x = 0 then NaN else if 0 < x then NInf else PInf)"
| "fmul PInf PInf = PInf"
| "fmul PInf NInf = NInf"
| "fmul NInf PInf = NInf"
| "fmul NInf NInf = PInf"

fun fdiv :: "float64 \<Rightarrow> float64 \<Rightarrow> float64" where
  "fdiv (Fin x) (Fin y) =
     (if y = 0 then (if x = 0 then NaN else if 0 < x then PInf else NInf)
      else Fin (x / y))"
| "fdiv NaN _ = NaN"
| "fdiv _ NaN = NaN"
| "fdiv (Fin x) PInf = Fin 0"
| "fdiv (Fin x) NInf = Fin 0"
| "fdiv PInf (Fin y) = (if 0 \<le> y then PInf else NInf)"
| "fdiv NInf (Fin y) = (if 0 \<le> y then NInf else PInf)"
| "fdiv PInf PInf = NaN"
| "fdiv PInf NInf = NaN"
| "fdiv NInf PInf = NaN"
| "fdiv NInf NInf = NaN"

fun fabs :: "float64 \<Rightarrow> float64" where
  "fabs (Fin x) = Fin \<bar>x\<bar>"
| "fabs PInf = PInf"
| "fabs NInf = PInf"
| "fabs NaN = NaN"

fun fsqrt :: "float64 \<Rightarrow> float64" where
  "fsqrt (Fin x) = (if x < 0 then NaN else Fin (sqrt x))"
| "fsqrt PInf = PInf"
| "fsqrt NInf = NaN"
| "fsqrt NaN = NaN"

fun is_finite :: "float64 \<Rightarrow> bool" where
  "is_finite (Fin x) = True"
| "is_finite PInf = False"
| "is_finite NInf = False"
| "is_finite NaN = False"

instantiation float64 :: "{zero, one, plus, minus, uminus, times, inverse, abs}"
begin

definition zero_float64 :: float64 where "zero_float64 = Fin 0"
definition one_float64 :: float64 where "one_float64 = Fin 1"
definition plus_float64 :: "float64 \<Rightarrow> float64 \<Rightarrow> float64" where "plus_float64 a b = fadd a b"
definition uminus_float64 :: "float64 \<Rightarrow> float64" where "uminus_float64 a = fneg a"
definition minus_float64 :: "float64 \<Rightarrow> float64 \<Rightarrow> float64" where "minus_float64 a b = fadd a (fneg b)"
definition times_float64 :: "float64 \<Rightarrow> float64 \<Rightarrow> float64" where "times_float64 a b = fmul a b"
definition divide_float64 :: "float64 \<Rightarrow> float64 \<Rightarrow> float64" where "divide_float64 a b = fdiv a b"
definition inverse_float64 :: "float64 \<Rightarrow> float64" where "inverse_float64 a = fdiv (Fin 1) a"
definition abs_float64 :: "float64 \<Rightarrow> float64" where "abs_float64 a = fabs a"

instance ..

end

text \<open>\<^verbatim>\<open>np.sum\<close> of a one-dimensional array, and the dot product \<^verbatim>\<open>a @ b\<close>.\<close>

definition np_sum :: "float64 list \<Rightarrow> float64" where
  "np_sum xs = foldl (+) 0 xs"

text \<open>\<^verbatim>\<open>np.linalg.norm\<close> of a sequence: the square root of the sum of squares.\<close>

definition np_norm :: "float64 list \<Rightarrow> float64" where
  "np_norm xs = fsqrt (np_sum (map (\<lambda>x. x * x) xs))"

section \<open>Combinatorics: \<^verbatim>\<open>comb\<close>\<close>

text \<open>
  \<^verbatim>\<open>return int(math.factorial(n) / (math.factorial(k) * math.factorial(n - k)))\<close>

  \<^verbatim>\<open>math.factorial\<close> raises \<open>ValueError\<close> on a negative argument. The operator
  \<^verbatim>\<open>/\<close> on two Python integers is true division: it returns the float nearest to
  the exact quotient (ties to even), raises \<open>ZeroDivisionError\<close> on a zero divisor
  and \<open>OverflowError\<close> when the quotient is too large for a float. \<^verbatim>\<open>int\<close> truncates
  a float towards zero.
\<close>

definition factorial :: "int \<Rightarrow> py_error + int" where
  "factorial n = (if n < 0 then Inl ValueError else Inr (int (fact (nat n))))"

fun bit_length :: "nat \<Rightarrow> nat" where
  "bit_length n = (if n = 0 then 0 else Suc (bit_length (n div 2)))"

declare bit_length.simps [simp del]

text \<open>The integer nearest to \<open>num / den\<close>, ties to the even one.\<close>

definition round_half_even_div :: "nat \<Rightarrow> nat \<Rightarrow> nat" where
  "round_half_even_div num den =
     (let q = num div den; r = num mod den
      in if 2 * r < den then q
         else if den < 2 * r then q + 1
         else if even q then q else q + 1)"

text \<open>
  The exponent \<open>e\<close> with \<open>2^e \<le> a / b < 2^(e+1)\<close>, for positive \<open>a\<close> and \<open>b\<close>, from
  the two bit lengths.
\<close>

definition quotient_exponent :: "nat \<Rightarrow> nat \<Rightarrow> int" where
  "quotient_exponent a b =
     (let d = int (bit_length a) - int (bit_length b)
      in if b * 2 ^ nat d \<le> a * 2 ^ nat (- d) then d else d - 1)"

text \<open>
  The binary64 number nearest to \<open>a / b\<close> for positive \<open>a\<close> and \<open>b\<close>: 53 significant
  bits, the least exponent of a bit being \<open>-1074\<close>; a result of \<open>2^1024\<close> or more does
  not exist.
\<close>

definition round_binary64 :: "nat \<Rightarrow> nat \<Rightarrow> real option" where
  "round_binary64 a b =
     (let s = max (quotient_exponent a b - 52) (- 1074);
          m = round_half_even_div (a * 2 ^ nat (- s)) (b * 2 ^ nat s);
          v = (if 0 \<le> s then real (m * 2 ^ nat s) else real m / 2 ^ nat (- s))
      in if 2 ^ 1024 \<le> v then None else Some v)"

definition int_truediv :: "int \<Rightarrow> int \<Rightarrow> py_error + float64" where
  "int_truediv a b =
     (if b = 0 then Inl ZeroDivisionError
      else if a = 0 then Inr (Fin 0)
      else case round_binary64 (nat \<bar>a\<bar>) (nat \<bar>b\<bar>) of
             None \<Rightarrow> Inl OverflowError
           | Some v \<Rightarrow> Inr (Fin (if (a < 0) = (b < 0) then v else - v)))"

text \<open>\<^verbatim>\<open>int(x)\<close> of a float.\<close>

fun py_int :: "float64 \<Rightarrow> py_error + int" where
  "py_int (Fin x) = Inr (if 0 \<le> x then \<lfloor>x\<rfloor> else \<lceil>x\<rceil>)"
| "py_int PInf = Inl OverflowError"
| "py_int NInf = Inl OverflowError"
| "py_int NaN = Inl ValueError"

definition comb :: "int \<Rightarrow> int \<Rightarrow> py_error + int" where
  "comb n k =
     err_bind (factorial n) (\<lambda>fn.
     err_bind (factorial k) (\<lambda>fk.
     err_bind (factorial (n - k)) (\<lambda>fnk.
     err_bind (int_truediv fn (fk * fnk)) py_int)))"

section \<open>Arrays\<close>

text \<open>
  A one-dimensional numpy array is the list of its entries, a two-dimensional
  one the list of its rows (all of one length; the empty list is the array of
  shape \<open>(0, 0)\<close>). An index beyond the end raises \<open>IndexError\<close>; a slice
  \<^verbatim>\<open>xs[a:b]\<close> stops at the end of the array without an error. All indices of this
  module are non-negative.
\<close>

type_synonym matrix = "float64 list list"

definition getitem :: "'a list \<Rightarrow> nat \<Rightarrow> py_error + 'a" where
  "getitem xs i = (if i < length xs then Inr (xs ! i) else Inl IndexError)"

definition slice :: "nat \<Rightarrow> nat \<Rightarrow> 'a list \<Rightarrow> 'a list" where
  "slice a b xs = take (b - a) (drop a xs)"

definition ncols :: "matrix \<Rightarrow> nat" where
  "ncols M = (case M of [] \<Rightarrow> 0 | r # _ \<Rightarrow> length r)"

definition matrix_get :: "matrix \<Rightarrow> nat \<Rightarrow> nat \<Rightarrow> py_error + float64" where
  "matrix_get M i j =
     (if i < length M \<and> j < length (M ! i) then Inr (M ! i ! j) else Inl IndexError)"

text \<open>A \<^verbatim>\<open>for\<close> loop over a list, threading a state; the first exception ends it.\<close>

fun fold_err :: "('a \<Rightarrow> 's \<Rightarrow> py_error + 's) \<Rightarrow> 'a list \<Rightarrow> 's \<Rightarrow> py_error + 's" where
  "fold_err f [] s = Inr s"
| "fold_err f (x # xs) s = (case f x s of Inl e \<Rightarrow> Inl e | Inr s' \<Rightarrow> fold_err f xs s')"

fun sequence_err :: "(py_error + 'a) list \<Rightarrow> py_error + 'a list" where
  "sequence_err [] = Inr []"
| "sequence_err (x # xs) =
     err_bind x (\<lambda>v. err_bind (sequence_err xs) (\<lambda>vs. Inr (v # vs)))"

text \<open>
  An elementwise operation on two arrays. numpy broadcasts: the shapes must be equal
  unless one of them is 1, else \<open>ValueError\<close>.
\<close>

definition np_binop ::
  "(float64 \<Rightarrow> float64 \<Rightarrow> float64) \<Rightarrow> float64 list \<Rightarrow> float64 list \<Rightarrow> py_error + float64 list" where
  "np_binop f xs ys =
     (if length xs = length ys then Inr (map2 f xs ys)
      else if length xs = 1 then Inr (map (f (hd xs)) ys)
      else if length ys = 1 then Inr (map (\<lambda>x. f x (hd ys)) xs)
      else Inl ValueError)"

definition np_binop2 ::
  "(float64 \<Rightarrow> float64 \<Rightarrow> float64) \<Rightarrow> matrix \<Rightarrow> matrix \<Rightarrow> py_error + matrix" where
  "np_binop2 f a b =
     (if length a = length b then sequence_err (map2 (np_binop f) a b)
      else if length a = 1 then sequence_err (map (np_binop f (hd a)) b)
      else if length b = 1 then sequence_err (map (\<lambda>r. np_binop f r (hd b)) a)
      else Inl ValueError)"

text \<open>The product \<^verbatim>\<open>a @ b\<close> of two one-dimensional arrays; the lengths must agree.\<close>

definition np_dot :: "float64 list \<Rightarrow> float64 list \<Rightarrow> py_error + float64" where
  "np_dot xs ys =
     (if length xs = length ys then Inr (np_sum (map2 (*) xs ys)) else Inl ValueError)"

section \<open>Matrix utilities: \<^verbatim>\<open>matrix_distance\<close>\<close>

text \<open>
  \<^verbatim>\<open>
  n = a.shape[0]
  c = np.abs(a - b)
  return float(np.sum(c)) / (n ** 2 - n)
  \<close>
  The quotient is a division of a Python float by a Python integer, which raises
  \<open>ZeroDivisionError\<close> on a zero divisor whatever the dividend is.
\<close>

definition py_float_div :: "float64 \<Rightarrow> int \<Rightarrow> py_error + float64" where
  "py_float_div x k = (if k = 0 then Inl ZeroDivisionError else Inr (x / Fin (of_int k)))"

definition matrix_distance :: "matrix \<Rightarrow> matrix \<Rightarrow> py_error + float64" where
  "matrix_distance a b =
     (let n = int (length a)
      in err_bind (np_binop2 (-) a b) (\<lambda>d.
           let c = map (map abs) d
           in py_float_div (np_sum (concat c)) (n ^ 2 - n)))"

section \<open>Feasibility: \<^verbatim>\<open>check_constraint\<close>\<close>

text \<open>
  The comparison \<^verbatim>\<open>a <= b\<close> of two floats; it is false when either is not-a-number.
\<close>

fun fle :: "float64 \<Rightarrow> float64 \<Rightarrow> bool" where
  "fle NaN _ = False"
| "fle _ NaN = False"
| "fle (Fin x) (Fin y) = (x \<le> y)"
| "fle NInf _ = True"
| "fle _ PInf = True"
| "fle PInf _ = False"
| "fle _ NInf = False"

text \<open>
  numpy's \<^verbatim>\<open>argmin\<close> of a row: it keeps the running minimum \<open>mp\<close> and its index, replaces
  them at index \<open>i\<close> when \<^verbatim>\<open>!(x >= mp)\<close>, and stops at the first not-a-number. An
  empty row raises \<open>ValueError\<close>.
\<close>

fun argmin_loop :: "float64 list \<Rightarrow> nat \<Rightarrow> float64 \<Rightarrow> nat \<Rightarrow> nat" where
  "argmin_loop [] i mp min_ind = min_ind"
| "argmin_loop (x # xs) i mp min_ind =
     (if \<not> fle mp x then (if x = NaN then i else argmin_loop xs (Suc i) x i)
      else argmin_loop xs (Suc i) mp min_ind)"

definition np_argmin :: "float64 list \<Rightarrow> py_error + nat" where
  "np_argmin xs =
     (case xs of
        [] \<Rightarrow> Inl ValueError
      | x # rest \<Rightarrow> Inr (if x = NaN then 0 else argmin_loop rest 1 x 0))"

text \<open>
  \<^verbatim>\<open>
  min_indices = t.argmin(axis=1)
  diag_indices = np.diag_indices(t.shape[0])[0]
  return not np.any(min_indices != diag_indices)
  \<close>
  \<^verbatim>\<open>argmin\<close> along an axis of length 0 raises \<open>ValueError\<close>, also when there is no row.
\<close>

definition check_constraint :: "matrix \<Rightarrow> py_error + bool" where
  "check_constraint t =
     (if t = [] then Inl ValueError
      else err_bind (sequence_err (map np_argmin t)) (\<lambda>min_indices.
             let diag_indices = [0..<length t]
             in Inr (\<not> list_ex (\<lambda>(m, d). m \<noteq> d) (zip min_indices diag_indices))))"

section \<open>Objective functions\<close>

subsection \<open>\<^verbatim>\<open>compute_coalescence\<close>\<close>

text \<open>
  \<^verbatim>\<open>
  eqs_lst = []
  nC2 = comb(n, 2)
  k = 0
  for i in range(nC2):
      for j in range(i + 1, n):
          eq = t[k] - (0.5 * (t[nC2 + i] + t[nC2 + j]) * ((1 + f[k]) / (1 - f[k])))
          eqs_lst.append(eq)
          k += 1
  return np.linalg.norm(eqs_lst)
  \<close>
  The entries of \<open>t\<close> and \<open>f\<close> are numpy floats, whose division by zero gives an
  infinity or not-a-number and raises nothing. The state of the loops is the pair of
  \<open>k\<close> and \<open>eqs_lst\<close>.
\<close>

definition coalescence_eq ::
  "float64 list \<Rightarrow> float64 list \<Rightarrow> nat \<Rightarrow> nat \<Rightarrow> nat \<Rightarrow> nat \<Rightarrow> py_error + float64" where
  "coalescence_eq t f nC2 i j k =
     err_bind (getitem t k) (\<lambda>tk.
     err_bind (getitem t (nC2 + i)) (\<lambda>ti.
     err_bind (getitem t (nC2 + j)) (\<lambda>tj.
     err_bind (getitem f k) (\<lambda>fk.
       Inr (tk - (Fin (1/2) * (ti + tj) * ((1 + fk) / (1 - fk))))))))"

definition coalescence_inner ::
  "float64 list \<Rightarrow> float64 list \<Rightarrow> nat \<Rightarrow> nat \<Rightarrow> nat \<Rightarrow> nat \<times> float64 list
     \<Rightarrow> py_error + nat \<times> float64 list" where
  "coalescence_inner t f nC2 i j st =
     (case st of (k, eqs_lst) \<Rightarrow>
        err_bind (coalescence_eq t f nC2 i j k) (\<lambda>eq. Inr (k + 1, eqs_lst @ [eq])))"

definition coalescence_outer ::
  "float64 list \<Rightarrow> float64 list \<Rightarrow> nat \<Rightarrow> nat \<Rightarrow> nat \<Rightarrow> nat \<times> float64 list
     \<Rightarrow> py_error + nat \<times> float64 list" where
  "coalescence_outer t f n nC2 i st = fold_err (coalescence_inner t f nC2 i) [i + 1..<n] st"

definition coalescence_eqs :: "float64 list \<Rightarrow> float64 list \<Rightarrow> nat \<Rightarrow> py_error + float64 list" where
  "coalescence_eqs t f n =
     err_bind (comb (int n) 2) (\<lambda>nC2.
     err_bind (fold_err (coalescence_outer t f n (nat nC2)) [0..<nat nC2] (0, [])) (\<lambda>st.
       Inr (snd st)))"

definition compute_coalescence :: "float64 list \<Rightarrow> float64 list \<Rightarrow> nat \<Rightarrow> py_error + float64" where
  "compute_coalescence t f n = err_bind (coalescence_eqs t f n) (\<lambda>eqs_lst. Inr (np_norm eqs_lst))"

subsection \<open>\<^verbatim>\<open>f_to_m\<close>\<close>

text \<open>
  The vector \<^verbatim>\<open>(ones + v) / (ones - v)\<close> with \<^verbatim>\<open>ones = np.ones(n - 1)\<close>.
\<close>

definition f_vector :: "nat \<Rightarrow> float64 list \<Rightarrow> py_error + float64 list" where
  "f_vector n v =
     (let ones = replicate (n - 1) (1::float64)
      in err_bind (np_binop (+) ones v) (\<lambda>num.
         err_bind (np_binop (-) ones v) (\<lambda>den.
           np_binop (/) num den)))"

text \<open>The slice \<^verbatim>\<open>m[(n - 1) * i: (n - 1) * i + n - 1]\<close>.\<close>

definition incoming_migrants :: "float64 list \<Rightarrow> nat \<Rightarrow> nat \<Rightarrow> float64 list" where
  "incoming_migrants m n i = slice ((n - 1) * i) ((n - 1) * i + n - 1) m"

text \<open>
  The concatenation of \<^verbatim>\<open>f[n * r: n * r + c]\<close> and \<^verbatim>\<open>f[n * r + 1 + c: n * r + n]\<close>: row
  \<open>r\<close> of the flattened matrix without its entry at column \<open>c\<close>.
\<close>

definition f_row_without :: "float64 list \<Rightarrow> nat \<Rightarrow> nat \<Rightarrow> nat \<Rightarrow> float64 list" where
  "f_row_without f n r c = slice (n * r) (n * r + c) f @ slice (n * r + 1 + c) (n * r + n) f"

text \<open>The concatenation of \<^verbatim>\<open>t[:i]\<close> and \<^verbatim>\<open>t[i + 1:]\<close>.\<close>

definition t_without :: "float64 list \<Rightarrow> nat \<Rightarrow> float64 list" where
  "t_without t i = take i t @ drop (i + 1) t"

text \<open>
  The body of the inner loop \<^verbatim>\<open>for j in range(i)\<close>, which appends the equation of the
  pair of \<open>i\<close> and \<open>j\<close>:
  \<^verbatim>\<open>
  incoming_migrants_j = m[(n - 1) * j: (n - 1) * j + n - 1]
  m_j = np.sum(incoming_migrants_j)
  f_j_values = np.concatenate((f[n * j: n * j + i], f[n * j + 1 + i: n * j + n]))
  f_i_new_values = np.concatenate((f[n * i: n * i + j], f[n * i + 1 + j: n * i + n]))
  f_j_vector = (ones + f_j_values) / (ones - f_j_values)
  f_i_new_vector = (ones + f_i_new_values) / (ones - f_i_new_values)
  t_vals_no_j = np.concatenate((t[:j], t[j + 1:]))
  equation_lst.append(0.25 * (((m_i + m_j) * (t[i] + t[j]) * ((1 + f[(n * i + j)]) / (1 - f[(n * i + j)]))) -
                              (incoming_migrants_i @ ((other_t + t[j]) * f_j_vector))
                              - (incoming_migrants_j @ ((t_vals_no_j + t[i]) * f_i_new_vector))) - 1)
  \<close>
\<close>

definition f_to_m_pair ::
  "float64 list \<Rightarrow> float64 list \<Rightarrow> float64 list \<Rightarrow> nat \<Rightarrow> nat \<Rightarrow> nat \<Rightarrow> py_error + float64" where
  "f_to_m_pair m t f n i j =
     (let incoming_migrants_i = incoming_migrants m n i;
          m_i = np_sum incoming_migrants_i;
          other_t = t_without t i;
          incoming_migrants_j = incoming_migrants m n j;
          m_j = np_sum incoming_migrants_j;
          f_j_values = f_row_without f n j i;
          f_i_new_values = f_row_without f n i j
      in err_bind (f_vector n f_j_values) (\<lambda>f_j_vector.
         err_bind (f_vector n f_i_new_values) (\<lambda>f_i_new_vector.
         let t_vals_no_j = t_without t j
         in err_bind (getitem t i) (\<lambda>ti.
            err_bind (getitem t j) (\<lambda>tj.
            err_bind (getitem f (n * i + j)) (\<lambda>fij.
            err_bind (np_binop (*) (map (\<lambda>x. x + tj) other_t) f_j_vector) (\<lambda>w1.
            err_bind (np_dot incoming_migrants_i w1) (\<lambda>d1.
            err_bind (np_binop (*) (map (\<lambda>x. x + ti) t_vals_no_j) f_i_new_vector) (\<lambda>w2.
            err_bind (np_dot incoming_migrants_j w2) (\<lambda>d2.
              Inr (Fin (1/4) * ((m_i + m_j) * (ti + tj) * ((1 + fij) / (1 - fij)) - d1 - d2)
                   - 1)))))))))))"

text \<open>
  The equation of population \<open>i\<close> alone, appended before the inner loop runs:
  \<^verbatim>\<open>
  incoming_migrants_i = m[(n - 1) * i: (n - 1) * i + n - 1]
  m_i = np.sum(incoming_migrants_i)
  other_t = np.concatenate((t[:i], t[i + 1:]))
  f_i_values = np.concatenate((f[n * i: n * i + i], f[n * i + 1 + i: n * i + n]))
  ones = np.ones(n - 1)
  f_i_vector = (ones + f_i_values) / (ones - f_i_values)
  equation_lst.append(((1 + m_i) * t[i] - 0.5 * (incoming_migrants_i @ ((other_t + t[i]) * f_i_vector))) - 1)
  \<close>
\<close>

definition f_to_m_self ::
  "float64 list \<Rightarrow> float64 list \<Rightarrow> float64 list \<Rightarrow> nat \<Rightarrow> nat \<Rightarrow> py_error + float64" where
  "f_to_m_self m t f n i =
     (let incoming_migrants_i = incoming_migrants m n i;
          m_i = np_sum incoming_migrants_i;
          other_t = t_without t i;
          f_i_values = f_row_without f n i i
      in err_bind (f_vector n f_i_values) (\<lambda>f_i_vector.
         err_bind (getitem t i) (\<lambda>ti.
         err_bind (np_binop (*) (map (\<lambda>x. x + ti) other_t) f_i_vector) (\<lambda>w.
         err_bind (np_dot incoming_migrants_i w) (\<lambda>d.
           Inr ((1 + m_i) * ti - Fin (1/2) * d - 1))))))"

definition f_to_m_row ::
  "float64 list \<Rightarrow> float64 list \<Rightarrow> float64 list \<Rightarrow> nat \<Rightarrow> nat \<Rightarrow> float64 list
     \<Rightarrow> py_error + float64 list" where
  "f_to_m_row m t f n i equation_lst =
     err_bind (f_to_m_self m t f n i) (\<lambda>eq.
       fold_err (\<lambda>j lst. err_bind (f_to_m_pair m t f n i j) (\<lambda>eq'. Inr (lst @ [eq'])))
         [0..<i] (equation_lst @ [eq]))"

text \<open>
  \<^verbatim>\<open>
  m = u[:n ** 2 - n]
  t = u[n ** 2 - n:]
  for i in range(n): ...
  return np.linalg.norm(equation_lst)
  \<close>
\<close>

definition f_to_m_eqs :: "float64 list \<Rightarrow> float64 list \<Rightarrow> nat \<Rightarrow> py_error + float64 list" where
  "f_to_m_eqs u f n =
     (let m = take (n ^ 2 - n) u;
          t = drop (n ^ 2 - n) u
      in fold_err (f_to_m_row m t f n) [0..<n] [])"

definition f_to_m :: "float64 list \<Rightarrow> float64 list \<Rightarrow> nat \<Rightarrow> py_error + float64" where
  "f_to_m u f n = err_bind (f_to_m_eqs u f n) (\<lambda>equation_lst. Inr (np_norm equation_lst))"

section \<open>Graph decomposition\<close>

subsection \<open>\<^verbatim>\<open>find_components\<close>\<close>

text \<open>
  The dictionary \<open>comp_dict\<close> is the list of its items in insertion order, which is
  the order of \<^verbatim>\<open>.values()\<close>. The set \<open>not_visited\<close> is the list of its elements in
  the order in which a loop over the set yields them: CPython keeps a small
  non-negative integer in the slot of its own value, so the set built from
  \<^verbatim>\<open>range(1, n)\<close> is iterated in ascending order, and removing elements keeps the
  order of the others. \<^verbatim>\<open>set.remove\<close> and the lookup of a missing key raise
  \<open>KeyError\<close>.
\<close>

record bfs_state =
  components :: nat
  queue :: "nat list"
  visited :: "nat set"
  not_visited :: "nat list"
  comp_dict :: "(nat \<times> nat list) list"

text \<open>\<^verbatim>\<open>comp_dict[key].append(v)\<close>\<close>

fun dict_append :: "(nat \<times> nat list) list \<Rightarrow> nat \<Rightarrow> nat \<Rightarrow> py_error + (nat \<times> nat list) list" where
  "dict_append [] key v = Inl KeyError"
| "dict_append ((k, xs) # d) key v =
     (if k = key then Inr ((k, xs @ [v]) # d)
      else case dict_append d key v of Inl e \<Rightarrow> Inl e | Inr d' \<Rightarrow> Inr ((k, xs) # d'))"

text \<open>\<^verbatim>\<open>comp_dict[key] = val\<close>\<close>

fun dict_set :: "(nat \<times> nat list) list \<Rightarrow> nat \<Rightarrow> nat list \<Rightarrow> (nat \<times> nat list) list" where
  "dict_set [] key val = [(key, val)]"
| "dict_set ((k, xs) # d) key val =
     (if k = key then (k, val) # d else (k, xs) # dict_set d key val)"

text \<open>
  The body of \<^verbatim>\<open>for i in range(n)\<close>:
  \<^verbatim>\<open>
  if i not in visited and (matrix[cur_vertex, i] != 0 or matrix[i, cur_vertex] != 0):
      queue.append(i)
      visited.add(i)
      not_visited.remove(i)
      comp_dict[components].append(i)
  \<close>
\<close>

definition is_edge :: "matrix \<Rightarrow> nat \<Rightarrow> nat \<Rightarrow> py_error + bool" where
  "is_edge M cur_vertex i =
     (case matrix_get M cur_vertex i of
        Inl e \<Rightarrow> Inl e
      | Inr a \<Rightarrow>
          if a \<noteq> 0 then Inr True
          else case matrix_get M i cur_vertex of Inl e \<Rightarrow> Inl e | Inr b \<Rightarrow> Inr (b \<noteq> 0))"

definition visit :: "matrix \<Rightarrow> nat \<Rightarrow> nat \<Rightarrow> bfs_state \<Rightarrow> py_error + bfs_state" where
  "visit M cur_vertex i s =
     (if i \<in> visited s then Inr s
      else case is_edge M cur_vertex i of
             Inl e \<Rightarrow> Inl e
           | Inr False \<Rightarrow> Inr s
           | Inr True \<Rightarrow>
               if i \<notin> set (not_visited s) then Inl KeyError
               else case dict_append (comp_dict s) (components s) i of
                      Inl e \<Rightarrow> Inl e
                    | Inr d \<Rightarrow>
                        Inr (s\<lparr>queue := queue s @ [i],
                               visited := insert i (visited s),
                               not_visited := remove1 i (not_visited s),
                               comp_dict := d\<rparr>))"

text \<open>
  \<^verbatim>\<open>
  while len(queue) != 0:
      cur_vertex = queue.popleft()
      for i in range(n): ...
  \<close>
\<close>

function bfs_loop :: "matrix \<Rightarrow> nat \<Rightarrow> bfs_state \<Rightarrow> py_error + bfs_state" where
  "bfs_loop M n s =
     (case queue s of
        [] \<Rightarrow> Inr s
      | cur_vertex # rest \<Rightarrow>
          (case fold_err (visit M cur_vertex) [0..<n] (s\<lparr>queue := rest\<rparr>) of
             Inl e \<Rightarrow> Inl e
           | Inr s' \<Rightarrow> bfs_loop M n s'))"
  by pat_completeness auto
termination
proof (relation "measures [\<lambda>(M, n, s). length (not_visited s), \<lambda>(M, n, s). length (queue s)]")
  show "wf (measures [\<lambda>(M, n, s). length (not_visited s), \<lambda>(M, n, s). length (queue s)])"
    by simp
next
  fix M :: matrix and n :: nat and s s' :: bfs_state and cur_vertex :: nat and rest :: "nat list"
  assume q: "queue s = cur_vertex # rest"
    and f: "fold_err (visit M cur_vertex) [0..<n] (s\<lparr>queue := rest\<rparr>) = Inr s'"
  have step: "length (not_visited b) < length (not_visited a) \<or>
      (length (not_visited b) = length (not_visited a) \<and> queue b = queue a)"
    if "visit M cur_vertex i a = Inr b" for i a b
  proof (cases "b = a")
    case True
    then show ?thesis by simp
  next
    case False
    with that have mem: "i \<in> set (not_visited a)"
      and nv: "not_visited b = remove1 i (not_visited a)"
      by (auto simp: visit_def split: if_splits sum.splits bool.splits)
    from mem have "0 < length (not_visited a)" by (rule length_pos_if_in_set)
    with mem nv show ?thesis by (simp add: length_remove1)
  qed
  have run: "length (not_visited b) < length (not_visited a) \<or>
      (length (not_visited b) = length (not_visited a) \<and> queue b = queue a)"
    if "fold_err (visit M cur_vertex) xs a = Inr b" for xs a b
    using that
  proof (induction xs arbitrary: a)
    case Nil
    then show ?case by simp
  next
    case (Cons x xs)
    then obtain c where c: "visit M cur_vertex x a = Inr c" "fold_err (visit M cur_vertex) xs c = Inr b"
      by (auto split: sum.splits)
    from step[OF c(1)] Cons.IH[OF c(2)] show ?case by auto
  qed
  from run[OF f] q
  show "((M, n, s'), (M, n, s)) \<in>
      measures [\<lambda>(M, n, s). length (not_visited s), \<lambda>(M, n, s). length (queue s)]"
    by auto
qed

declare bfs_loop.simps [simp del]

text \<open>
  \<^verbatim>\<open>
  while len(not_visited) != 0:
      while len(queue) != 0: ...
      for vertex in not_visited:
          components += 1
          queue.append(vertex)
          visited.add(vertex)
          not_visited.remove(vertex)
          comp_dict[components] = [vertex]
          break
  \<close>
  The \<^verbatim>\<open>for\<close> loop runs its body at most once, for the first element that the set
  yields.
\<close>

definition new_component :: "bfs_state \<Rightarrow> bfs_state" where
  "new_component s =
     (case not_visited s of
        [] \<Rightarrow> s
      | vertex # rest \<Rightarrow>
          s\<lparr>components := components s + 1,
            queue := queue s @ [vertex],
            visited := insert vertex (visited s),
            not_visited := remove1 vertex (not_visited s),
            comp_dict := dict_set (comp_dict s) (components s + 1) [vertex]\<rparr>)"

function components_loop :: "matrix \<Rightarrow> nat \<Rightarrow> bfs_state \<Rightarrow> py_error + bfs_state" where
  "components_loop M n s =
     (if not_visited s = [] then Inr s
      else case bfs_loop M n s of
             Inl e \<Rightarrow> Inl e
           | Inr s' \<Rightarrow> components_loop M n (new_component s'))"
  by pat_completeness auto
termination
proof (relation "measure (\<lambda>(M, n, s). length (not_visited s))")
  show "wf (measure (\<lambda>(M, n, s). length (not_visited s)))"
    by simp
next
  fix M :: matrix and n :: nat and s s' :: bfs_state
  assume ne: "not_visited s \<noteq> []" and b: "bfs_loop M n s = Inr s'"
  have step: "length (not_visited b) \<le> length (not_visited a)"
    if "visit M' c i a = Inr b" for M' c i a b
    using that
    by (auto simp: visit_def length_remove1 split: if_splits sum.splits bool.splits)
  have run: "length (not_visited b) \<le> length (not_visited a)"
    if "fold_err (visit M' c) xs a = Inr b" for M' c xs a b
    using that
  proof (induction xs arbitrary: a)
    case Nil
    then show ?case by simp
  next
    case (Cons x xs)
    then obtain d where d: "visit M' c x a = Inr d" "fold_err (visit M' c) xs d = Inr b"
      by (auto split: sum.splits)
    from step[OF d(1)] Cons.IH[OF d(2)] show ?case by simp
  qed
  have loop: "bfs_loop M' n' a = Inr b \<Longrightarrow> length (not_visited b) \<le> length (not_visited a)"
    for M' n' a b
  proof (induction M' n' a rule: bfs_loop.induct)
    case (1 M n a)
    show ?case
    proof (cases "queue a")
      case Nil
      with 1(2) show ?thesis by (simp add: bfs_loop.simps[of M n a])
    next
      case (Cons c rest)
      with 1(2) obtain d where d: "fold_err (visit M c) [0..<n] (a\<lparr>queue := rest\<rparr>) = Inr d"
        "bfs_loop M n d = Inr b"
        by (auto simp: bfs_loop.simps[of M n a] split: sum.splits)
      from 1(1)[OF Cons d(1) d(2)] run[OF d(1)] show ?thesis by simp
    qed
  qed
  have "length (not_visited (new_component s')) < length (not_visited s) "
  proof (cases "not_visited s'")
    case Nil
    with ne show ?thesis by (simp add: new_component_def)
  next
    case (Cons v rest)
    with loop[OF b] show ?thesis by (simp add: new_component_def)
  qed
  then show "((M, n, new_component s'), (M, n, s)) \<in> measure (\<lambda>(M, n, s). length (not_visited s))"
    by simp
qed

declare components_loop.simps [simp del]

text \<open>
  \<^verbatim>\<open>
  components = 1
  n = matrix.shape[0]
  queue = deque()
  visited = set()
  not_visited = set([i for i in range(1, n)])
  visited.add(0)
  comp_dict = {components: [0]}
  queue.append(0)
  while len(not_visited) != 0: ...
  return comp_dict
  \<close>
\<close>

definition initial_state :: "nat \<Rightarrow> bfs_state" where
  "initial_state n =
     \<lparr>components = 1, queue = [0], visited = {0}, not_visited = [1..<n], comp_dict = [(1, [0])]\<rparr>"

definition find_components :: "matrix \<Rightarrow> py_error + (nat \<times> nat list) list" where
  "find_components M =
     (let n = length M
      in err_bind (components_loop M n (initial_state n)) (\<lambda>s. Inr (comp_dict s)))"

subsection \<open>\<^verbatim>\<open>split_migration_matrix\<close> and \<^verbatim>\<open>split_migration\<close>\<close>

text \<open>
  \<^verbatim>\<open>migration_matrix[np.ix_(component, component)]\<close>: the rows and columns listed in
  \<open>component\<close>, in its order.
\<close>

definition ix_get :: "matrix \<Rightarrow> nat list \<Rightarrow> py_error + matrix" where
  "ix_get M component =
     (if \<forall>i \<in> set component. i < length M \<and> i < ncols M
      then Inr (map (\<lambda>r. map (\<lambda>c. M ! r ! c) component) component)
      else Inl IndexError)"

definition split_migration_matrix :: "matrix \<Rightarrow> nat list list \<Rightarrow> py_error + matrix list" where
  "split_migration_matrix migration_matrix connected_components =
     sequence_err (map (ix_get migration_matrix) connected_components)"

definition split_migration :: "matrix \<Rightarrow> py_error + matrix list \<times> nat list list" where
  "split_migration migration_matrix =
     err_bind (find_components migration_matrix) (\<lambda>d.
       let components = map snd d
       in err_bind (split_migration_matrix migration_matrix components) (\<lambda>sub_matrices.
            Inr (sub_matrices, components)))"

subsection \<open>\<^verbatim>\<open>reassemble_matrix\<close>\<close>



definition set_entry :: "matrix \<Rightarrow> nat \<Rightarrow> nat \<Rightarrow> float64 \<Rightarrow> matrix" where
  "set_entry A i j v = A[i := (A ! i)[j := v]]"



section \<open>Notions used in the statements\<close>

text \<open>An array of shape \<open>(n, n)\<close>.\<close>

definition square :: "nat \<Rightarrow> matrix \<Rightarrow> bool" where
  "square n M = (length M = n \<and> list_all (\<lambda>r. length r = n) M)"

text \<open>
  The order in which numpy's \<^verbatim>\<open>min\<close> and \<^verbatim>\<open>argmin\<close> compare floats: the usual order of
  the numbers and the infinities, with not-a-number below everything.
\<close>

definition np_le :: "float64 \<Rightarrow> float64 \<Rightarrow> bool" where
  "np_le a b = (a = NaN \<or> fle a b)"

text \<open>Column \<open>j\<close> holds a minimum of the row; column \<open>j\<close> is the first one that does.\<close>

definition is_row_min :: "float64 list \<Rightarrow> nat \<Rightarrow> bool" where
  "is_row_min row j = (j < length row \<and> (\<forall>k<length row. np_le (row ! j) (row ! k)))"

definition first_min_pos :: "float64 list \<Rightarrow> nat \<Rightarrow> bool" where
  "first_min_pos row j = (is_row_min row j \<and> (\<forall>k<j. \<not> is_row_min row k))"

text \<open>
  The unordered pairs \<open>(i, j)\<close>, \<open>i < j < n\<close>, in the order of the Fst vector:
  \<open>(0,1), (0,2), \<dots>, (0,n-1), (1,2), \<dots>\<close>
\<close>

definition pair_order :: "nat \<Rightarrow> (nat \<times> nat) list" where
  "pair_order n = concat (map (\<lambda>i. map (\<lambda>j. (i, j)) [i + 1..<n]) [0..<n])"

text \<open>
  The residual of the \<open>k\<close>-th pair \<open>(i, j)\<close>:
  \<open>t[k] - 0.5 (T(i,i) + T(j,j)) (1 + f[k]) / (1 - f[k])\<close>, where \<open>T(i,i)\<close> is entry
  \<open>C(n,2) + i\<close> of \<open>t\<close>.
\<close>

definition slatkin_residual :: "float64 list \<Rightarrow> float64 list \<Rightarrow> nat \<Rightarrow> nat \<Rightarrow> float64" where
  "slatkin_residual t f n k =
     (case pair_order n ! k of
        (i, j) \<Rightarrow>
          t ! k - Fin (1/2) * (t ! ((n choose 2) + i) + t ! ((n choose 2) + j))
                  * ((1 + f ! k) / (1 - f ! k)))"

text \<open>A float that is not below zero: a non-negative number, \<open>+inf\<close> or not-a-number.\<close>

fun fnonneg :: "float64 \<Rightarrow> bool" where
  "fnonneg (Fin y) = (0 \<le> y)"
| "fnonneg PInf = True"
| "fnonneg NInf = False"
| "fnonneg NaN = True"

text \<open>
  The undirected edge relation of a migration matrix: \<open>i\<close> and \<open>j\<close> are joined when
  \<open>M[i][j]\<close> or \<open>M[j][i]\<close> is not zero.
\<close>

definition adjacent :: "matrix \<Rightarrow> nat \<Rightarrow> nat \<Rightarrow> bool" where
  "adjacent M i j = (M ! i ! j \<noteq> 0 \<or> M ! j ! i \<noteq> 0)"

text \<open>
  Breadth-first search as the specification words it: a first-in first-out queue; the
  vertex at its front is taken out, and its neighbours not yet discovered are appended,
  in ascending order, to the queue and to the list of discovered vertices.
\<close>

function bfs_from :: "(nat \<Rightarrow> nat \<Rightarrow> bool) \<Rightarrow> nat \<Rightarrow> nat list \<Rightarrow> nat list \<Rightarrow> nat list" where
  "bfs_from adj n pending discovered =
     (case pending of
        [] \<Rightarrow> discovered
      | v # rest \<Rightarrow>
          (let new = filter (\<lambda>i. i \<notin> set discovered \<and> adj v i) [0..<n]
           in bfs_from adj n (rest @ new) (discovered @ new)))"
  by pat_completeness auto
termination
proof (relation "measures [\<lambda>(adj, n, p, d). n - card (set d \<inter> {0..<n}), \<lambda>(adj, n, p, d). length p]")
  show "wf (measures [\<lambda>(adj, n, p, d). n - card (set d \<inter> {0..<n}), \<lambda>(adj, n, p, d). length p])"
    by simp
next
  fix adj :: "nat \<Rightarrow> nat \<Rightarrow> bool" and n :: nat and pending discovered rest new :: "nat list"
    and v :: nat
  assume p: "pending = v # rest"
    and new: "new = filter (\<lambda>i. i \<notin> set discovered \<and> adj v i) [0..<n]"
  show "((adj, n, rest @ new, discovered @ new), (adj, n, pending, discovered)) \<in>
      measures [\<lambda>(adj, n, p, d). n - card (set d \<inter> {0..<n}), \<lambda>(adj, n, p, d). length p]"
  proof (cases "new = []")
    case True
    with p show ?thesis by simp
  next
    case False
    then obtain x where x: "x \<in> set new" by (cases new) auto
    with new have xn: "x < n" and xd: "x \<notin> set discovered" by simp_all
    let ?A = "set discovered \<inter> {0..<n}" and ?B = "set (discovered @ new) \<inter> {0..<n}"
    have "?A \<subseteq> ?B" by (simp add: subset_iff)
    moreover have "x \<in> ?B" using x xn by simp
    moreover have "x \<notin> ?A" using xd by simp
    ultimately have "?A \<subset> ?B" by blast
    moreover have "finite ?B" by simp
    ultimately have lt: "card ?A < card ?B" by (rule psubset_card_mono[rotated])
    have "?B \<subseteq> {0..<n}" by (rule Int_lower2)
    then have "card ?B \<le> card {0..<n}" by (rule card_mono[rotated]) simp
    then have le: "card ?B \<le> n" by simp
    from lt le have "n - card ?B < n - card ?A" by linarith
    then show ?thesis by simp
  qed
qed

declare bfs_from.simps [simp del]

definition bfs_order :: "matrix \<Rightarrow> nat list" where
  "bfs_order M = bfs_from (adjacent M) (length M) [0] [0]"

text \<open>
  Every component is not empty and starts with the least vertex that is not in
  \<open>seen\<close> nor in a component before it.
\<close>

fun starts_min :: "nat \<Rightarrow> nat set \<Rightarrow> nat list list \<Rightarrow> bool" where
  "starts_min n seen [] = True"
| "starts_min n seen (c # cs) =
     (c \<noteq> [] \<and> hd c = Min ({0..<n} - seen) \<and> starts_min n (seen \<union> set c) cs)"

text \<open>The nonzero pattern is connected: every vertex is reached from vertex 0.\<close>

definition connected_pattern :: "matrix \<Rightarrow> bool" where
  "connected_pattern M =
     (\<forall>v<length M. (0, v) \<in> {(i, j). i < length M \<and> j < length M \<and> adjacent M i j}\<^sup>*)"

text \<open>What holds of the state of \<open>find_components\<close> between the steps of its loops.\<close>

definition bfs_inv :: "matrix \<Rightarrow> nat \<Rightarrow> bfs_state \<Rightarrow> bool" where
  "bfs_inv M n s =
     (visited s = set (concat (map snd (comp_dict s)))
      \<and> distinct (concat (map snd (comp_dict s)))
      \<and> visited s \<subseteq> {0..<n}
      \<and> sorted_wrt (<) (not_visited s)
      \<and> set (not_visited s) = {0..<n} - visited s
      \<and> set (queue s) \<subseteq> visited s
      \<and> 1 \<le> components s
      \<and> map fst (comp_dict s) = [1..<Suc (components s)]
      \<and> starts_min n {} (map snd (comp_dict s))
      \<and> (\<forall>u\<in>visited s. u \<notin> set (queue s) \<longrightarrow> (\<forall>i<n. adjacent M u i \<longrightarrow> i \<in> visited s)))"

section \<open>Basic facts\<close>

lemmas float64_arith =
  zero_float64_def one_float64_def plus_float64_def uminus_float64_def minus_float64_def
  times_float64_def divide_float64_def abs_float64_def

lemma err_bind_Inr [simp]: "err_bind (Inr v) f = f v"
  by (simp add: err_bind_def)

lemma err_bind_Inl [simp]: "err_bind (Inl e) f = Inl e"
  by (simp add: err_bind_def)

lemma sequence_err_map_Inr [simp]: "sequence_err (map Inr xs) = Inr xs"
  by (induction xs) simp_all

lemma sequence_err_map_Inr': "sequence_err (map (\<lambda>x. Inr (g x)) xs) = Inr (map g xs)"
  by (induction xs) simp_all

lemma np_binop_same: "length xs = length ys \<Longrightarrow> np_binop f xs ys = Inr (map2 f xs ys)"
  by (simp add: np_binop_def)

lemma fold_err_append:
  "fold_err g (xs @ ys) s = (case fold_err g xs s of Inl e \<Rightarrow> Inl e | Inr s' \<Rightarrow> fold_err g ys s')"
  by (induction xs arbitrary: s) (auto split: sum.splits)

lemma fold_err_skip: "\<forall>y\<in>set ys. \<forall>s. g y s = Inr s \<Longrightarrow> fold_err g ys s = Inr s"
  by (induction ys arbitrary: s) auto

lemma fold_err_concat:
  "fold_err (\<lambda>i. fold_err (h i) (js i)) is s =
   fold_err (\<lambda>(i, j). h i j) (concat (map (\<lambda>i. map (\<lambda>j. (i, j)) (js i)) is)) s"
proof (induction "is" arbitrary: s)
  case Nil
  then show ?case by simp
next
  case (Cons i "is")
  have inner: "fold_err (\<lambda>(i, j). h i j) (map (\<lambda>j. (i, j)) xs) s' = fold_err (h i) xs s'" for xs s'
    by (induction xs arbitrary: s') (auto split: sum.splits)
  show ?case
    by (simp add: fold_err_append inner Cons.IH split: sum.splits)
qed

lemma fold_upt_skip:
  assumes "m \<le> a" and "\<forall>i\<ge>m. \<forall>s. g i s = Inr s"
  shows "fold_err g [0..<a] s = fold_err g [0..<m] s"
proof -
  have "[0..<a] = [0..<m] @ [m..<a]"
    using assms(1) by (metis le_add_diff_inverse upt_add_eq_append zero_le)
  moreover have "fold_err g [m..<a] s' = Inr s'" for s'
    by (rule fold_err_skip) (use assms(2) in auto)
  ultimately show ?thesis
    by (simp add: fold_err_append split: sum.splits)
qed

section \<open>Properties of \<^verbatim>\<open>comb\<close>\<close>

text \<open>
  The bit length brackets a positive number between two powers of 2, so the exponent
  computed from two bit lengths is the one of the quotient. A quotient that is an
  integer below \<open>2^53\<close> is therefore a float, and \<open>comb\<close> is the binomial coefficient
  whenever that coefficient is below \<open>2^53\<close>.
\<close>

lemma bit_length_bounds:
  "0 < n \<Longrightarrow> 2 ^ (bit_length n - 1) \<le> n \<and> n < 2 ^ bit_length n"
proof (induction n rule: bit_length.induct)
  case (1 n)
  show ?case
  proof (cases "n div 2 = 0")
    case True
    with 1(2) have "n = 1" by presburger
    moreover have "bit_length (Suc 0) = 1"
      by (simp add: bit_length.simps[of "Suc 0"] bit_length.simps[of 0])
    ultimately show ?thesis by simp
  next
    case False
    then have pos: "0 < n div 2" by simp
    from 1(1)[OF _ pos] 1(2)
    have ih: "2 ^ (bit_length (n div 2) - 1) \<le> n div 2" "n div 2 < 2 ^ bit_length (n div 2)"
      by auto
    have bl: "bit_length n = Suc (bit_length (n div 2))"
      using 1(2) by (simp add: bit_length.simps[of n])
    have bpos: "0 < bit_length (n div 2)"
      using pos by (simp add: bit_length.simps[of "n div 2"])
    have "2 ^ (bit_length n - 1) = 2 * 2 ^ (bit_length (n div 2) - 1)"
      using bl bpos by (cases "bit_length (n div 2)") auto
    also have "\<dots> \<le> 2 * (n div 2)" using ih(1) by simp
    also have "\<dots> \<le> n" by simp
    finally have a: "2 ^ (bit_length n - 1) \<le> n" .
    have "n < 2 * (n div 2) + 2" by presburger
    also have "\<dots> \<le> 2 * 2 ^ bit_length (n div 2)" using ih(2) by simp
    finally have b: "n < 2 ^ bit_length n" using bl by simp
    from a b show ?thesis by simp
  qed
qed

lemma quotient_exponent_exact:
  assumes b: "0 < b" and N: "1 \<le> N"
  shows "0 \<le> quotient_exponent (N * b) b \<and>
         2 ^ nat (quotient_exponent (N * b) b) \<le> N \<and>
         N < 2 * 2 ^ nat (quotient_exponent (N * b) b)"
proof -
  let ?a = "N * b"
  let ?la = "bit_length ?a" and ?lb = "bit_length b"
  have a: "0 < ?a" using b N by simp
  note ba = bit_length_bounds[OF a] and bb = bit_length_bounds[OF b]
  have lbpos: "0 < ?lb" using b by (simp add: bit_length.simps[of b])
  have lapos: "0 < ?la" using a by (simp add: bit_length.simps[of ?a])
  have le: "?lb \<le> ?la"
  proof (rule ccontr)
    assume "\<not> ?lb \<le> ?la"
    then have "?la \<le> ?lb - 1" by simp
    then have "(2::nat) ^ ?la \<le> 2 ^ (?lb - 1)" by (rule power_increasing) simp
    with ba bb have "?a < b" by linarith
    with N b show False by (simp add: leD)
  qed
  define d where "d = ?la - ?lb"
  have dint: "int ?la - int ?lb = int d" using le by (simp add: d_def)
  have up: "N < 2 * 2 ^ d"
  proof -
    have "N * 2 ^ (?lb - 1) \<le> N * b" using bb by simp
    also have "\<dots> < 2 ^ ?la" using ba by simp
    also have "\<dots> = 2 ^ (d + 1) * 2 ^ (?lb - 1)"
    proof -
      have "?la = (d + 1) + (?lb - 1)" using le lbpos by (simp add: d_def)
      then show ?thesis by (simp only: power_add)
    qed
    finally show ?thesis by simp
  qed
  show ?thesis
  proof (cases "2 ^ d \<le> N")
    case True
    then have "b * 2 ^ d \<le> N * b" by simp
    then have "quotient_exponent (N * b) b = int d"
      by (simp add: quotient_exponent_def dint Let_def)
    with True up show ?thesis by simp
  next
    case False
    then have lt: "N < 2 ^ d" by simp
    then have "\<not> b * 2 ^ d \<le> N * b" using b by simp
    then have qe: "quotient_exponent (N * b) b = int d - 1"
      by (simp add: quotient_exponent_def dint Let_def)
    have dpos: "0 < d" using lt N by (cases d) auto
    have "2 ^ (?la - 1) \<le> N * b" using ba by simp
    also have "\<dots> < N * 2 ^ ?lb" using bb N by simp
    finally have "2 ^ (?la - 1) < N * 2 ^ ?lb" .
    moreover have "(2::nat) ^ (?la - 1) = 2 ^ (d - 1) * 2 ^ ?lb"
    proof -
      have "?la - 1 = (d - 1) + ?lb" using le dpos by (simp add: d_def)
      then show ?thesis by (simp only: power_add)
    qed
    ultimately have "2 ^ (d - 1) < N" by simp
    moreover have "nat (int d - 1) = d - 1" by simp
    moreover have "(2::nat) * 2 ^ (d - 1) = 2 ^ d" using dpos by (cases d) auto
    ultimately show ?thesis using qe lt dpos by (simp add: )
  qed
qed

lemma round_binary64_exact:
  assumes b: "0 < b" and N: "1 \<le> N" and small: "N < 2 ^ 53"
  shows "round_binary64 (N * b) b = Some (real N)"
proof -
  define e where "e = nat (quotient_exponent (N * b) b)"
  from quotient_exponent_exact[OF b N]
  have e0: "quotient_exponent (N * b) b = int e" and lo: "2 ^ e \<le> N" and hi: "N < 2 * 2 ^ e"
    by (simp_all add: e_def)
  have "(2::nat) ^ e < 2 ^ 53" using lo small by linarith
  then have "e < 53" by (rule power_less_imp_less_exp[rotated]) simp
  then have e52: "e \<le> 52" by simp
  define s where "s = max (int e - 52) (- 1074)"
  have s: "s = - int (52 - e)" using e52 by (simp add: s_def)
  have ns: "nat (- s) = 52 - e" "nat s = 0" by (simp_all add: s)
  define m where "m = round_half_even_div (N * b * 2 ^ nat (- s)) (b * 2 ^ nat s)"
  have m: "m = N * 2 ^ (52 - e)"
    unfolding m_def ns using b
    by (simp add: round_half_even_div_def Let_def mult.assoc mult.left_commute[of b])
  define v where "v = (if 0 \<le> s then real (m * 2 ^ nat s) else real m / 2 ^ nat (- s))"
  have v: "v = real N" unfolding v_def ns m using s by auto
  have "real N < real (2 ^ 53)" using small by (simp only: of_nat_less_iff)
  then have "real N < 2 ^ 53" by simp
  also have "\<dots> \<le> (2::real) ^ 1024" by (rule power_increasing) simp_all
  finally have lt: "\<not> (2::real) ^ 1024 \<le> v" unfolding v by (simp only: not_le)
  have "round_binary64 (N * b) b = (if 2 ^ 1024 \<le> v then None else Some v)"
    by (simp only: round_binary64_def Let_def e0 v_def m_def s_def)
  also have "\<dots> = Some v" using lt by (simp only: if_False)
  finally show ?thesis unfolding v .
qed

lemma comb_exact:
  assumes "0 \<le> k" "k \<le> n" "nat n choose nat k < 2 ^ 53"
  shows "comb n k = Inr (int (nat n choose nat k))"
proof -
  define N where "N = nat n choose nat k"
  define b where "b = (fact (nat k) * fact (nat n - nat k) :: nat)"
  have kn: "nat k \<le> nat n" using assms by simp
  have fa: "fact (nat n) = N * b"
    unfolding N_def b_def using binomial_fact_lemma[OF kn] by (simp add: mult.commute mult.left_commute)
  have bpos: "0 < b" by (simp add: b_def)
  have Npos: "1 \<le> N" unfolding N_def using kn by (simp add: Suc_le_eq)
  have r: "round_binary64 (N * b) b = Some (real N)"
    using round_binary64_exact[OF bpos Npos] assms(3) by (simp add: N_def)
  have nk: "nat (n - k) = nat n - nat k" using assms by simp
  have ib: "int (fact (nat k)) * int (fact (nat (n - k))) = int b"
    by (simp add: b_def nk)
  have "int_truediv (int (fact (nat n))) (int (fact (nat k)) * int (fact (nat (n - k)))) = Inr (Fin (real N))"
    unfolding int_truediv_def ib fa using r bpos Npos
    by (simp add: nat_mult_distrib mult_less_0_iff)
  then show ?thesis
    using assms by (simp add: comb_def factorial_def err_bind_def N_def)
qed


subsection \<open>The value of \<^verbatim>\<open>comb(57, 25)\<close>\<close>

text \<open>The bit length of a numeral, for evaluation by the simplifier.\<close>

lemma bit_length_One: "bit_length (Suc 0) = Suc 0"
  by (simp add: bit_length.simps[of "Suc 0"] bit_length.simps[of 0])

lemma numeral_Bit0_div_2: "(numeral (num.Bit0 k) :: nat) div 2 = numeral k"
  by simp

lemma numeral_Bit1_div_2: "(numeral (num.Bit1 k) :: nat) div 2 = numeral k"
  by simp

lemma bit_length_Bit0: "bit_length (numeral (num.Bit0 k)) = Suc (bit_length (numeral k))"
  by (subst bit_length.simps) (simp only: numeral_Bit0_div_2 numeral_eq_iff if_False zero_neq_numeral numeral_neq_zero)

lemma bit_length_Bit1: "bit_length (numeral (num.Bit1 k)) = Suc (bit_length (numeral k))"
  by (subst bit_length.simps) (simp only: numeral_Bit1_div_2 numeral_eq_iff if_False zero_neq_numeral numeral_neq_zero)

lemma bit_length_1: "bit_length 1 = 1"
  using bit_length_One by simp

lemma bit_length_num1: "bit_length (numeral num.One) = 1"
  using bit_length_One by simp

lemmas bit_length_numeral = bit_length_1 bit_length_num1 bit_length_One bit_length_Bit0 bit_length_Bit1

lemma factorial_57: "factorial 57 = Inr 40526919504877216755680601905432322134980384796226602145184481280000000000000"
  by (simp add: factorial_def fact_numeral)

lemma factorial_25: "factorial 25 = Inr 15511210043330985984000000"
  by (simp add: factorial_def fact_numeral)

lemma factorial_32: "factorial 32 = Inr 263130836933693530167218012160000000"
  by (simp add: factorial_def fact_numeral)

lemma quotient_exponent_57_25: "quotient_exponent 40526919504877216755680601905432322134980384796226602145184481280000000000000 (15511210043330985984000000 * 263130836933693530167218012160000000) = 53"
  by (simp add: quotient_exponent_def bit_length_numeral Let_def)

lemma round_half_even_div_57_25: "round_half_even_div 40526919504877216755680601905432322134980384796226602145184481280000000000000 (15511210043330985984000000 * 263130836933693530167218012160000000 * 2) = 4964736141758894"
  by (simp add: round_half_even_div_def Let_def)

lemma round_binary64_57_25: "round_binary64 40526919504877216755680601905432322134980384796226602145184481280000000000000 (15511210043330985984000000 * 263130836933693530167218012160000000) = Some 9929472283517788"
  unfolding round_binary64_def quotient_exponent_57_25
  using round_half_even_div_57_25 by (simp add: Let_def)

lemma comb_57_25: "comb 57 25 = Inr 9929472283517788"
  using round_binary64_57_25
  by (simp add: comb_def err_bind_def factorial_57 factorial_25 factorial_32 int_truediv_def nat_mult_distrib)

lemma binomial_57_25: "(57 choose 25) = (9929472283517787 :: nat)"
proof -
  have "fact 25 * fact (57 - 25) * (57 choose 25) = (fact 57 :: nat)"
    by (rule binomial_fact_lemma) simp
  then show ?thesis by (simp add: fact_numeral)
qed

text \<open>
  Claim C3 says that \<open>comb(n, k)\<close> is the exact binomial coefficient for all
  \<open>0 \<le> k \<le> n\<close>. The true division rounds the quotient of the factorials to a
  float: \<open>comb(57, 25)\<close> returns 9929472283517788, while the binomial coefficient of
  57 and 25 is 9929472283517787, an odd number above \<open>2^53\<close>.
\<close>

theorem comb_57_25_inexact:
  "comb 57 25 = Inr 9929472283517788 \<and> (57 choose 25) = (9929472283517787 :: nat)"
  using comb_57_25 binomial_57_25 by (simp only: simp_thms)

section \<open>Properties of \<^verbatim>\<open>matrix_distance\<close>\<close>

lemma square_nth: "square n M \<Longrightarrow> i < n \<Longrightarrow> length (M ! i) = n"
  by (simp add: square_def list_all_length)

lemma square_length: "square n M \<Longrightarrow> length M = n"
  by (simp add: square_def)

lemma np_binop2_square:
  assumes "square n A" "square n B"
  shows "np_binop2 f A B = Inr (map (\<lambda>i. map (\<lambda>j. f (A ! i ! j) (B ! i ! j)) [0..<n]) [0..<n])"
proof -
  have len: "length A = n" "length B = n" using assms by (simp_all add: square_def)
  have "map2 (np_binop f) A B = map (\<lambda>i. Inr (map (\<lambda>j. f (A ! i ! j) (B ! i ! j)) [0..<n])) [0..<n]"
  proof (rule nth_equalityI)
    show "length (map2 (np_binop f) A B) = length (map (\<lambda>i. Inr (map (\<lambda>j. f (A ! i ! j) (B ! i ! j)) [0..<n])) [0..<n])"
      using len by simp
  next
    fix i assume "i < length (map2 (np_binop f) A B)"
    then have i: "i < n" using len by simp
    have la: "length (A ! i) = n" and lb: "length (B ! i) = n"
      using assms i by (simp_all add: square_nth)
    have "map2 f (A ! i) (B ! i) = map (\<lambda>j. f (A ! i ! j) (B ! i ! j)) [0..<n]"
      by (rule nth_equalityI) (simp_all add: la lb)
    then show "map2 (np_binop f) A B ! i = map (\<lambda>i. Inr (map (\<lambda>j. f (A ! i ! j) (B ! i ! j)) [0..<n])) [0..<n] ! i"
      using i len la lb by (simp add: np_binop_same)
  qed
  then show ?thesis using len by (simp add: np_binop2_def sequence_err_map_Inr')
qed

lemma matrix_distance_square:
  assumes "square n A" "square n B"
  shows "matrix_distance A B =
    py_float_div (np_sum (concat (map (\<lambda>i. map (\<lambda>j. \<bar>A ! i ! j - B ! i ! j\<bar>) [0..<n]) [0..<n])))
      ((int n)\<^sup>2 - int n)"
  using assms by (simp add: matrix_distance_def np_binop2_square square_length Let_def comp_def)

lemma denominator_zero_iff: "((int n)\<^sup>2 - int n = 0) = (n < 2)"
proof -
  have "(int n)\<^sup>2 - int n = int n * (int n - 1)" by (simp add: power2_eq_square algebra_simps)
  then show ?thesis by auto
qed







text \<open>
  Claim C10. For two arrays of shape \<open>(1, 1)\<close> the normalising denominator \<open>n^2 - n\<close> is
  zero and \<open>matrix_distance\<close> raises \<open>ZeroDivisionError\<close>; on arrays of shape \<open>(n, n)\<close> it
  returns a number exactly when \<open>n \<ge> 2\<close>.
\<close>

theorem matrix_distance_zero_division:
  assumes A: "square n A" and B: "square n B"
  shows "(n = 1 \<longrightarrow> matrix_distance A B = Inl ZeroDivisionError)
         \<and> ((\<exists>x. matrix_distance A B = Inr x) \<longleftrightarrow> 2 \<le> n)"
  unfolding matrix_distance_square[OF A B] py_float_div_def denominator_zero_iff
  by auto

theorem matrix_distance_zero_division_witness:
  "square 1 [[Fin 3]] \<and> square 1 [[Fin 5]]
   \<and> matrix_distance [[Fin 3]] [[Fin 5]] = Inl ZeroDivisionError
   \<and> \<not> (\<exists>x. matrix_distance [[Fin 3]] [[Fin 5]] = Inr x)"
proof -
  have A: "square 1 [[Fin 3]]" and B: "square 1 [[Fin 5]]" by (simp_all add: square_def)
  from matrix_distance_zero_division[OF A B] A B show ?thesis by simp
qed

section \<open>Properties of \<^verbatim>\<open>check_constraint\<close>\<close>

text \<open>
  The loop of \<^verbatim>\<open>argmin\<close> keeps the first position of a minimum of the part of the row it
  has read.
\<close>

lemma np_le_refl: "np_le a a"
  by (cases a) (simp_all add: np_le_def)

lemma np_le_trans: "np_le a b \<Longrightarrow> np_le b c \<Longrightarrow> np_le a c"
  by (cases a; cases b; cases c) (simp_all add: np_le_def)

lemma np_le_NaN: "np_le a NaN \<longleftrightarrow> a = NaN"
  by (cases a) (simp_all add: np_le_def)

lemma fle_np_le: "fle a b \<Longrightarrow> np_le a b \<and> b \<noteq> NaN"
  by (cases a; cases b) (simp_all add: np_le_def)

lemma not_fle_np_le: "\<not> fle a b \<Longrightarrow> a \<noteq> NaN \<Longrightarrow> b \<noteq> NaN \<Longrightarrow> np_le b a \<and> \<not> np_le a b"
  by (cases a; cases b) (simp_all add: np_le_def)

lemma first_min_pos_unique:
  assumes a: "first_min_pos row j" "first_min_pos row k"
  shows "j = k"
proof (rule ccontr)
  assume "j \<noteq> k"
  then consider "j < k" | "k < j" by linarith
  then show False using a by cases (auto simp: first_min_pos_def)
qed

lemma argmin_loop_first_min:
  assumes "mi < length ys" "mp = ys ! mi" "mp \<noteq> NaN" "first_min_pos ys mi" "i = length ys"
  shows "first_min_pos (ys @ xs) (argmin_loop xs i mp mi)"
  using assms
proof (induction xs arbitrary: ys mp mi i)
  case Nil
  then show ?case by simp
next
  case (Cons x xs)
  have le_all: "\<forall>k<length ys. np_le mp (ys ! k)"
    using Cons.prems by (simp add: first_min_pos_def is_row_min_def)
  have no_nan: "\<forall>k<length ys. ys ! k \<noteq> NaN"
  proof (intro allI impI)
    fix k assume "k < length ys"
    with le_all have "np_le mp (ys ! k)" by simp
    with Cons.prems(3) show "ys ! k \<noteq> NaN" by (auto simp: np_le_NaN)
  qed
  have before: "\<forall>k<mi. \<exists>l<length ys. \<not> np_le (ys ! k) (ys ! l)"
    using Cons.prems by (auto simp: first_min_pos_def is_row_min_def)
  show ?case
  proof (cases "fle mp x")
    case True
    then have mx: "np_le mp x" "x \<noteq> NaN" using fle_np_le by blast+
    have "first_min_pos (ys @ [x]) mi"
      unfolding first_min_pos_def is_row_min_def
    proof (intro conjI allI impI)
      show "mi < length (ys @ [x])" using Cons.prems by simp
      fix k assume "k < length (ys @ [x])"
      then show "np_le ((ys @ [x]) ! mi) ((ys @ [x]) ! k)"
        using le_all mx Cons.prems(1,2) by (cases "k < length ys") (auto simp: nth_append)
    next
      fix k assume k: "k < mi"
      with before obtain l where l: "l < length ys" "\<not> np_le (ys ! k) (ys ! l)" by blast
      with k Cons.prems(1) have "l < length (ys @ [x]) \<and> \<not> np_le ((ys @ [x]) ! k) ((ys @ [x]) ! l)"
        by (simp add: nth_append)
      then show "\<not> (k < length (ys @ [x]) \<and> (\<forall>l<length (ys @ [x]). np_le ((ys @ [x]) ! k) ((ys @ [x]) ! l)))"
        by blast
    qed
    from Cons.IH[OF _ _ Cons.prems(3) this, of "Suc i"] Cons.prems True
    show ?thesis by (simp add: nth_append)
  next
    case False
    show ?thesis
    proof (cases "x = NaN")
      case True
      have "first_min_pos (ys @ x # xs) (length ys)"
        unfolding first_min_pos_def is_row_min_def
      proof (intro conjI allI impI)
        show "length ys < length (ys @ x # xs)" by simp
        fix k assume "k < length (ys @ x # xs)"
        show "np_le ((ys @ x # xs) ! length ys) ((ys @ x # xs) ! k)"
          using True by (simp add: np_le_def)
      next
        fix k assume k: "k < length ys"
        then have "\<not> np_le ((ys @ x # xs) ! k) ((ys @ x # xs) ! length ys)"
          using no_nan True by (simp add: nth_append np_le_NaN)
        moreover have "length ys < length (ys @ x # xs)" by simp
        ultimately show "\<not> (k < length (ys @ x # xs) \<and> (\<forall>l<length (ys @ x # xs). np_le ((ys @ x # xs) ! k) ((ys @ x # xs) ! l)))"
          by blast
      qed
      with False True Cons.prems show ?thesis by simp
    next
      case xn: False
      from not_fle_np_le[OF False Cons.prems(3) xn]
      have lt: "np_le x mp" "\<not> np_le mp x" by blast+
      have "first_min_pos (ys @ [x]) (length ys)"
        unfolding first_min_pos_def is_row_min_def
      proof (intro conjI allI impI)
        show "length ys < length (ys @ [x])" by simp
        fix k assume "k < length (ys @ [x])"
        then consider "k < length ys" | "k = length ys" by fastforce
        then show "np_le ((ys @ [x]) ! length ys) ((ys @ [x]) ! k)"
        proof cases
          case 1
          then have "np_le mp (ys ! k)" using le_all by simp
          with lt(1) have "np_le x (ys ! k)" by (rule np_le_trans)
          with 1 show ?thesis by (simp add: nth_append)
        next
          case 2
          then show ?thesis by (simp add: np_le_refl)
        qed
      next
        fix k assume k: "k < length ys"
        have "np_le mp (ys ! k)" using le_all k by simp
        then have "\<not> np_le (ys ! k) x"
          using lt(2) np_le_trans by blast
        then have "\<not> np_le ((ys @ [x]) ! k) ((ys @ [x]) ! length ys)"
          using k by (simp add: nth_append)
        moreover have "length ys < length (ys @ [x])" by simp
        ultimately show "\<not> (k < length (ys @ [x]) \<and> (\<forall>l<length (ys @ [x]). np_le ((ys @ [x]) ! k) ((ys @ [x]) ! l)))"
          by blast
      qed
      from Cons.IH[OF _ _ xn this, of "Suc i"] Cons.prems False xn
      show ?thesis by (simp add: nth_append)
    qed
  qed
qed

lemma np_argmin_first_min:
  assumes "row \<noteq> []"
  shows "\<exists>j. np_argmin row = Inr j \<and> first_min_pos row j"
proof -
  from assms obtain x rest where row: "row = x # rest" by (cases row) auto
  show ?thesis
  proof (cases "x = NaN")
    case True
    then show ?thesis by (simp add: row np_argmin_def first_min_pos_def is_row_min_def np_le_def)
  next
    case False
    have "first_min_pos [x] 0"
      by (simp add: first_min_pos_def is_row_min_def np_le_refl)
    from argmin_loop_first_min[of 0 "[x]" x 1 rest, OF _ _ False this]
    show ?thesis using False by (simp add: row np_argmin_def)
  qed
qed


lemma sequence_argmin:
  "\<forall>r\<in>set T. r \<noteq> [] \<Longrightarrow>
   \<exists>js. sequence_err (map np_argmin T) = Inr js \<and> length js = length T
      \<and> (\<forall>i<length T. first_min_pos (T ! i) (js ! i))"
proof (induction T)
  case Nil
  then show ?case by simp
next
  case (Cons r T)
  then obtain js where js: "sequence_err (map np_argmin T) = Inr js" "length js = length T"
    "\<forall>i<length T. first_min_pos (T ! i) (js ! i)" by auto
  from Cons.prems obtain j where j: "np_argmin r = Inr j" "first_min_pos r j"
    using np_argmin_first_min[of r] by auto
  have "\<forall>i<length (r # T). first_min_pos ((r # T) ! i) ((j # js) ! i)"
    using j(2) js(3) by (auto simp: nth_Cons split: nat.splits)
  with j(1) js(1,2) show ?case by (simp add: err_bind_def)
qed

lemma list_ex_zip_upt:
  assumes "length js = n"
  shows "list_ex (\<lambda>(m, d). m \<noteq> d) (zip js [0..<n]) \<longleftrightarrow> (\<exists>i<n. js ! i \<noteq> i)"
proof
  assume "list_ex (\<lambda>(m, d). m \<noteq> d) (zip js [0..<n])"
  then show "\<exists>i<n. js ! i \<noteq> i" by (auto simp: list_ex_iff set_zip)
next
  assume "\<exists>i<n. js ! i \<noteq> i"
  then obtain i where i: "i < n" "js ! i \<noteq> i" by blast
  with assms have "(js ! i, i) \<in> set (zip js [0..<n])"
    by (force simp: set_zip)
  with i(2) show "list_ex (\<lambda>(m, d). m \<noteq> d) (zip js [0..<n])"
    by (auto simp: list_ex_iff)
qed

text \<open>
  Claim C8. For an array \<open>T\<close> of shape \<open>(n, n)\<close>, \<open>n \<ge> 1\<close>, \<open>check_constraint\<close> returns true
  if and only if in every row \<open>i\<close> the first position of the row minimum is column \<open>i\<close>;
  so a row whose minimum also stands in a column before \<open>i\<close> makes the result false,
  even when \<open>T[i][i]\<close> attains the minimum.
\<close>

theorem check_constraint_first_min:
  assumes n: "1 \<le> n" and T: "square n T"
  shows "check_constraint T = Inr (\<forall>i<n. first_min_pos (T ! i) i)
         \<and> (\<forall>i<n. \<forall>k<i. is_row_min (T ! i) k \<longrightarrow> check_constraint T = Inr False)"
proof -
  have len: "length T = n" using T by (simp add: square_def)
  have ne: "T \<noteq> []" using n len by auto
  have rows: "\<forall>r\<in>set T. r \<noteq> []"
    using T n by (auto simp: square_def list_all_iff)
  from sequence_argmin[OF rows] len obtain js where
    js: "sequence_err (map np_argmin T) = Inr js" "length js = n"
        "\<forall>i<n. first_min_pos (T ! i) (js ! i)" by auto
  have eq: "(js ! i = i) = first_min_pos (T ! i) i" if "i < n" for i
    using js(3) that first_min_pos_unique by (metis (no_types))
  have main: "check_constraint T = Inr (\<forall>i<n. first_min_pos (T ! i) i)"
    using ne js(1) list_ex_zip_upt[OF js(2)] eq
    by (auto simp: check_constraint_def err_bind_def len Let_def)
  moreover have "check_constraint T = Inr False" if "i < n" "k < i" "is_row_min (T ! i) k" for i k
  proof -
    have "\<not> first_min_pos (T ! i) i" using that by (auto simp: first_min_pos_def)
    with that(1) show ?thesis unfolding main by auto
  qed
  ultimately show ?thesis by blast
qed

theorem check_constraint_first_min_witness:
  "1 \<le> (2::nat) \<and> square 2 [[Fin 1, Fin 1], [Fin 1, Fin 1]]
   \<and> is_row_min [Fin 1, Fin 1] 0
   \<and> check_constraint [[Fin 1, Fin 1], [Fin 1, Fin 1]] = Inr False"
proof -
  let ?T = "[[Fin 1, Fin 1], [Fin 1, Fin 1]]"
  have n: "1 \<le> (2::nat)" by simp
  have T: "square 2 ?T" by (simp add: square_def)
  have m: "is_row_min (?T ! 1) 0"
    by (auto simp: is_row_min_def np_le_def less_Suc_eq)
  from check_constraint_first_min[OF n T] m have "check_constraint ?T = Inr False"
    by (metis one_less_numeral_iff semiring_norm(76) zero_less_one)
  with n T m show ?thesis by simp
qed

section \<open>Properties of \<^verbatim>\<open>compute_coalescence\<close>\<close>

text \<open>The pairs in the order of the Fst vector: there are \<open>C(n,2)\<close> of them.\<close>

lemma length_pair_order: "length (pair_order n) = n choose 2"
proof -
  have "length (pair_order n) = (\<Sum>i<n. n - Suc i)"
    by (simp add: pair_order_def length_concat comp_def interv_sum_list_conv_sum_set_nat atLeast0LessThan)
  also have "\<dots> = (\<Sum>i<n. i)"
    by (rule sum.nat_diff_reindex)
  also have "\<dots> = n choose 2"
    by (induction n) (simp_all add: numeral_2_eq_2)
  finally show ?thesis .
qed

lemma pair_order_bounds:
  "k < length (pair_order n) \<Longrightarrow> fst (pair_order n ! k) < snd (pair_order n ! k) \<and> snd (pair_order n ! k) < n"
proof -
  assume "k < length (pair_order n)"
  then have "pair_order n ! k \<in> set (pair_order n)" by simp
  then show ?thesis by (auto simp: pair_order_def)
qed

text \<open>
  The two nested loops are one loop over the pairs in that order, and the counter
  \<open>k\<close> is the position of the pair. The outer loop runs over \<^verbatim>\<open>range(nC2)\<close>, not
  \<^verbatim>\<open>range(n)\<close>: the rows from \<open>n - 1\<close> on have an empty inner loop, and \<open>nC2 \<ge> n - 1\<close>.
\<close>

lemma coalescence_fold:
  assumes "\<forall>m<length ps. k0 + m < length t \<and> k0 + m < length f
             \<and> nC2 + fst (ps ! m) < length t \<and> nC2 + snd (ps ! m) < length t"
  shows "fold_err (\<lambda>(i, j). coalescence_inner t f nC2 i j) ps (k0, eqs0) =
         Inr (k0 + length ps,
              eqs0 @ map (\<lambda>m. case ps ! m of (i, j) \<Rightarrow>
                        t ! (k0 + m) - Fin (1/2) * (t ! (nC2 + i) + t ! (nC2 + j))
                                       * ((1 + f ! (k0 + m)) / (1 - f ! (k0 + m))))
                     [0..<length ps])"
  using assms
proof (induction ps arbitrary: k0 eqs0)
  case Nil
  then show ?case by simp
next
  case (Cons p ps)
  obtain i j where p: "p = (i, j)" by (cases p)
  from Cons.prems have h0: "k0 < length t" "k0 < length f" "nC2 + i < length t" "nC2 + j < length t"
    using p by auto
  have rest: "\<forall>m<length ps. Suc k0 + m < length t \<and> Suc k0 + m < length f
             \<and> nC2 + fst (ps ! m) < length t \<and> nC2 + snd (ps ! m) < length t"
  proof (intro allI impI)
    fix m assume "m < length ps"
    then have "Suc m < length (p # ps)" by simp
    from Cons.prems[rule_format, OF this] show "Suc k0 + m < length t \<and> Suc k0 + m < length f
             \<and> nC2 + fst (ps ! m) < length t \<and> nC2 + snd (ps ! m) < length t" by simp
  qed
  have step: "coalescence_inner t f nC2 i j (k0, eqs0) =
      Inr (Suc k0, eqs0 @ [t ! k0 - Fin (1/2) * (t ! (nC2 + i) + t ! (nC2 + j))
                                       * ((1 + f ! k0) / (1 - f ! k0))])"
    using h0 by (simp add: coalescence_inner_def coalescence_eq_def getitem_def)
  show ?case
    by (simp add: p step Cons.IH[OF rest] map_upt_Suc del: upt_Suc)
qed

lemma choose_two_ge: "2 \<le> n \<Longrightarrow> n - 1 \<le> n choose 2"
proof -
  assume "2 \<le> n"
  then have "2 * (n - 1) \<le> n * (n - 1)" by simp
  then have "2 * (n - 1) div 2 \<le> n * (n - 1) div 2" by (rule div_le_mono)
  then have "n - 1 \<le> n * (n - 1) div 2" by simp
  then show ?thesis by (simp add: choose_two)
qed

lemma coalescence_eqs_formula:
  assumes n: "2 \<le> n" and lt: "length t = (n choose 2) + n" and lf: "length f = n choose 2"
    and small: "length t < 2 ^ 53"
  shows "coalescence_eqs t f n = Inr (map (slatkin_residual t f n) [0..<n choose 2])"
proof -
  let ?c = "n choose 2"
  have "nat (int n) choose nat 2 < 2 ^ 53" using lt small by simp
  from comb_exact[OF _ _ this] n have comb: "comb (int n) 2 = Inr (int ?c)" by simp
  let ?g = "coalescence_outer t f n ?c"
  have skip: "\<forall>i\<ge>n - 1. \<forall>s. ?g i s = Inr s"
    by (simp add: coalescence_outer_def)
  have "fold_err ?g [0..<?c] (0, []) = fold_err ?g [0..<n - 1] (0, [])"
    by (rule fold_upt_skip[OF choose_two_ge[OF n] skip])
  also have "\<dots> = fold_err ?g [0..<n] (0, [])"
    by (rule fold_upt_skip[OF _ skip, symmetric]) simp
  also have "\<dots> = fold_err (\<lambda>(i, j). coalescence_inner t f ?c i j) (pair_order n) (0, [])"
    unfolding coalescence_outer_def pair_order_def by (rule fold_err_concat)
  also have "\<dots> = Inr (0 + length (pair_order n),
              [] @ map (\<lambda>m. case pair_order n ! m of (i, j) \<Rightarrow>
                        t ! (0 + m) - Fin (1/2) * (t ! (?c + i) + t ! (?c + j))
                                       * ((1 + f ! (0 + m)) / (1 - f ! (0 + m))))
                     [0..<length (pair_order n)])"
  proof (rule coalescence_fold, intro allI impI)
    fix m assume m: "m < length (pair_order n)"
    from pair_order_bounds[OF m] m
    show "0 + m < length t \<and> 0 + m < length f \<and> ?c + fst (pair_order n ! m) < length t
          \<and> ?c + snd (pair_order n ! m) < length t"
      by (simp add: lt lf length_pair_order)
  qed
  finally show ?thesis
    by (simp add: coalescence_eqs_def comb length_pair_order slatkin_residual_def)
qed

text \<open>A norm over a vector with an infinite or not-a-number entry is \<open>+inf\<close> or not-a-number.\<close>

lemma fnonneg_add: "fnonneg a \<Longrightarrow> fnonneg b \<Longrightarrow> fnonneg (a + b)"
  by (cases a; cases b) (simp_all add: float64_arith)

lemma nonfinite_add:
  "fnonneg a \<Longrightarrow> fnonneg b \<Longrightarrow> \<not> is_finite a \<or> \<not> is_finite b \<Longrightarrow> \<not> is_finite (a + b)"
  by (cases a; cases b) (simp_all add: float64_arith)

lemma fnonneg_square: "fnonneg (x * x)"
  by (cases x) (simp_all add: float64_arith)

lemma nonfinite_square: "\<not> is_finite x \<Longrightarrow> \<not> is_finite (x * x)"
  by (cases x) (simp_all add: float64_arith)

lemma nonfinite_times_PInf: "\<not> is_finite (a * PInf)"
  by (cases a) (simp_all add: float64_arith)

lemma nonfinite_minus: "\<not> is_finite b \<Longrightarrow> \<not> is_finite (a - b)"
  by (cases a; cases b) (simp_all add: float64_arith)

lemma ratio_at_one: "(1 + Fin 1) / (1 - Fin 1) = PInf"
  by (simp add: float64_arith)

lemma fsqrt_nonfinite: "fnonneg s \<Longrightarrow> \<not> is_finite s \<Longrightarrow> fsqrt s = PInf \<or> fsqrt s = NaN"
  by (cases s) simp_all

lemma foldl_fnonneg:
  "fnonneg a \<Longrightarrow> \<forall>x\<in>set xs. fnonneg x \<Longrightarrow> fnonneg (foldl (+) a xs)"
  by (induction xs arbitrary: a) (simp_all add: fnonneg_add)

lemma foldl_nonfinite_acc:
  "fnonneg a \<Longrightarrow> \<not> is_finite a \<Longrightarrow> \<forall>x\<in>set xs. fnonneg x \<Longrightarrow> \<not> is_finite (foldl (+) a xs)"
  by (induction xs arbitrary: a) (simp_all add: fnonneg_add nonfinite_add)

lemma foldl_nonfinite:
  "fnonneg a \<Longrightarrow> \<forall>x\<in>set xs. fnonneg x \<Longrightarrow> \<exists>x\<in>set xs. \<not> is_finite x
   \<Longrightarrow> \<not> is_finite (foldl (+) a xs)"
proof (induction xs arbitrary: a)
  case Nil
  then show ?case by simp
next
  case (Cons x xs)
  show ?case
  proof (cases "is_finite x")
    case True
    with Cons.prems have "\<exists>x\<in>set xs. \<not> is_finite x" by auto
    with Cons.prems Cons.IH[of "a + x"] show ?thesis by (simp add: fnonneg_add)
  next
    case False
    with Cons.prems have "fnonneg (a + x)" "\<not> is_finite (a + x)"
      by (simp_all add: fnonneg_add nonfinite_add)
    with Cons.prems show ?thesis by (simp add: foldl_nonfinite_acc)
  qed
qed

lemma np_norm_nonfinite:
  assumes "k < length xs" "\<not> is_finite (xs ! k)"
  shows "np_norm xs = PInf \<or> np_norm xs = NaN"
proof -
  let ?sq = "map (\<lambda>x. x * x) xs"
  have nn: "\<forall>x\<in>set ?sq. fnonneg x" by (auto simp: fnonneg_square)
  have "k < length ?sq" using assms(1) by simp
  then have "?sq ! k \<in> set ?sq" by (rule nth_mem)
  moreover have "\<not> is_finite (?sq ! k)" using assms by (simp add: nonfinite_square)
  ultimately have ex: "\<exists>x\<in>set ?sq. \<not> is_finite x" by blast
  have z: "fnonneg (0::float64)" by (simp add: zero_float64_def)
  have "fnonneg (np_sum ?sq)" "\<not> is_finite (np_sum ?sq)"
    unfolding np_sum_def using foldl_fnonneg[OF z nn] foldl_nonfinite[OF z nn ex] by blast+
  then show ?thesis unfolding np_norm_def by (rule fsqrt_nonfinite)
qed



text \<open>
  Claim C4, as amended. When an entry of \<open>f\<close> is exactly 1, \<open>compute_coalescence\<close> raises
  nothing: the division of numpy floats gives an infinity, and the function returns
  \<open>+inf\<close> or not-a-number.
\<close>

theorem compute_coalescence_fst_one:
  assumes n: "2 \<le> n" and lt: "length t = (n choose 2) + n" and lf: "length f = n choose 2"
    and small: "length t < 2 ^ 53" and k: "k < n choose 2" and one: "f ! k = Fin 1"
  shows "compute_coalescence t f n = Inr PInf \<or> compute_coalescence t f n = Inr NaN"
proof -
  let ?eqs = "map (slatkin_residual t f n) [0..<n choose 2]"
  have "\<not> is_finite (slatkin_residual t f n k)"
    unfolding slatkin_residual_def one ratio_at_one
    by (simp add: nonfinite_minus nonfinite_times_PInf split: prod.splits)
  then have "\<not> is_finite (?eqs ! k)" using k by simp
  moreover have "k < length ?eqs" using k by simp
  ultimately have "np_norm ?eqs = PInf \<or> np_norm ?eqs = NaN" by (rule np_norm_nonfinite[rotated])
  then show ?thesis
    using coalescence_eqs_formula[OF n lt lf small] by (auto simp: compute_coalescence_def)
qed

theorem compute_coalescence_fst_one_witness:
  "2 \<le> (2::nat) \<and> length [Fin 3, Fin 1, Fin 1] = (2 choose 2) + 2
   \<and> length [Fin 1] = (2 choose 2) \<and> length [Fin 3, Fin 1, Fin 1] < (2::nat) ^ 53
   \<and> (0::nat) < (2 choose 2) \<and> [Fin 1] ! 0 = Fin 1
   \<and> (compute_coalescence [Fin 3, Fin 1, Fin 1] [Fin 1] 2 = Inr PInf
        \<or> compute_coalescence [Fin 3, Fin 1, Fin 1] [Fin 1] 2 = Inr NaN)"
proof -
  let ?t = "[Fin 3, Fin 1, Fin 1]" and ?f = "[Fin 1]"
  have h: "2 \<le> (2::nat)" "length ?t = (2 choose 2) + 2" "length ?f = (2 choose 2)"
    "length ?t < (2::nat) ^ 53" "(0::nat) < (2 choose 2)" "?f ! 0 = Fin 1" by simp_all
  from compute_coalescence_fst_one[OF h] h show ?thesis by (simp only: simp_thms)
qed

text \<open>
  Claim C4 as stated (a division-by-zero error reaches the caller) fails: for
  \<open>t = [3, 1, 1]\<close>, \<open>f = [1]\<close> and \<open>n = 2\<close> the residual is \<open>3 - 0.5 * 2 * inf = -inf\<close> and
  the function returns \<open>+inf\<close>.
\<close>

theorem compute_coalescence_fst_one_counterexample:
  "compute_coalescence [Fin 3, Fin 1, Fin 1] [Fin 1] 2 = Inr PInf"
proof -
  let ?t = "[Fin 3, Fin 1, Fin 1]" and ?f = "[Fin 1]"
  have h: "2 \<le> (2::nat)" "length ?t = (2 choose 2) + 2" "length ?f = (2 choose 2)"
    "length ?t < (2::nat) ^ 53" by simp_all
  have r: "slatkin_residual ?t ?f 2 0 = NInf"
    by (simp add: slatkin_residual_def pair_order_def float64_arith upt_rec)
  from coalescence_eqs_formula[OF h] r show ?thesis
    by (simp add: compute_coalescence_def np_norm_def np_sum_def float64_arith)
qed

section \<open>Properties of \<^verbatim>\<open>reassemble_matrix\<close>\<close>

text \<open>
  The assignment to a block is a sequence of writes of single entries. The positions
  written are the pairs of the indices, each once when the indices are distinct; so an
  entry of the block ends with the value written to it, and the other entries keep
  theirs.
\<close>

lemma set_entry_length [simp]: "length (set_entry A i j v) = length A"
  by (simp add: set_entry_def)

lemma set_entry_row_length [simp]: "length (set_entry A i j v ! r) = length (A ! r)"
proof (cases "i < length A")
  case True
  then show ?thesis by (cases "r = i") (simp_all add: set_entry_def)
next
  case False
  then show ?thesis by (simp add: set_entry_def list_update_beyond)
qed




















section \<open>Properties of the graph decomposition\<close>

subsection \<open>One pass over the neighbours of a vertex\<close>

lemma dict_append_last:
  "key \<notin> fst ` set pre \<Longrightarrow> dict_append (pre @ [(key, L)]) key v = Inr (pre @ [(key, L @ [v])])"
  by (induction pre) auto

lemma dict_set_new:
  "key \<notin> fst ` set d \<Longrightarrow> dict_set d key val = d @ [(key, val)]"
  by (induction d) auto

lemma is_edge_square:
  "square n M \<Longrightarrow> i < n \<Longrightarrow> j < n \<Longrightarrow> is_edge M i j = Inr (adjacent M i j)"
  by (auto simp: is_edge_def matrix_get_def adjacent_def square_def list_all_length)

lemma starts_min_append:
  "starts_min n seen (cs @ [c]) \<longleftrightarrow>
     starts_min n seen cs \<and> c \<noteq> [] \<and> hd c = Min ({0..<n} - (seen \<union> set (concat cs)))"
  by (induction cs arbitrary: seen) (auto simp: Un_assoc)

lemma keys_split:
  assumes "map fst d = [1..<Suc c]" "1 \<le> c"
  shows "\<exists>pre L. d = pre @ [(c, L)] \<and> map fst pre = [1..<c] \<and> c \<notin> fst ` set pre"
proof -
  from assms have "d \<noteq> []" by auto
  then obtain pre x where d: "d = pre @ [x]" by (metis rev_exhaust)
  with assms have "map fst pre @ [fst x] = [1..<c] @ [c]" by simp
  then have "map fst pre = [1..<c]" "fst x = c" by simp_all
  moreover from this have "c \<notin> fst ` set pre"
    by (metis atLeastLessThan_iff less_irrefl list.set_map set_upt)
  ultimately show ?thesis using d by (cases x) auto
qed

lemma fold_visit:
  assumes sq: "square n M" and cur: "cur < n" and xs: "set xs \<subseteq> {0..<n}" "distinct xs"
    and d: "comp_dict s = pre @ [(components s, L)]" "components s \<notin> fst ` set pre"
    and nv: "{0..<n} - visited s \<subseteq> set (not_visited s)"
  shows "fold_err (visit M cur) xs s =
         Inr (s\<lparr>queue := queue s @ filter (\<lambda>i. i \<notin> visited s \<and> adjacent M cur i) xs,
               visited := visited s \<union> set (filter (\<lambda>i. i \<notin> visited s \<and> adjacent M cur i) xs),
               not_visited := fold remove1 (filter (\<lambda>i. i \<notin> visited s \<and> adjacent M cur i) xs)
                                (not_visited s),
               comp_dict := pre @ [(components s,
                                    L @ filter (\<lambda>i. i \<notin> visited s \<and> adjacent M cur i) xs)]\<rparr>)"
  using xs d nv
proof (induction xs arbitrary: s L)
  case Nil
  then show ?case by simp
next
  case (Cons i xs)
  have i: "i < n" "i \<notin> set xs" using Cons.prems by auto
  have xs': "set xs \<subseteq> {0..<n}" "distinct xs" using Cons.prems by auto
  show ?case
  proof (cases "i \<notin> visited s \<and> adjacent M cur i")
    case False
    then have "visit M cur i s = Inr s"
      using is_edge_square[OF sq cur i(1)] by (auto simp: visit_def)
    with False Cons.IH[OF xs' Cons.prems(3,4,5)] show ?thesis by auto
  next
    case True
    let ?s1 = "s\<lparr>queue := queue s @ [i], visited := insert i (visited s),
                 not_visited := remove1 i (not_visited s),
                 comp_dict := pre @ [(components s, L @ [i])]\<rparr>"
    have mem: "i \<in> set (not_visited s)" using True i(1) Cons.prems(5) by auto
    have v: "visit M cur i s = Inr ?s1"
      using True is_edge_square[OF sq cur i(1)] mem dict_append_last[OF Cons.prems(4)]
      by (simp add: visit_def Cons.prems(3))
    have nv1: "{0..<n} - visited ?s1 \<subseteq> set (not_visited ?s1)"
    proof
      fix x assume x: "x \<in> {0..<n} - visited ?s1"
      then have "x \<noteq> i" "x \<in> set (not_visited s)" using Cons.prems(5) by auto
      then show "x \<in> set (not_visited ?s1)" by (simp add: in_set_remove1)
    qed
    have flt: "filter (\<lambda>j. j \<notin> visited ?s1 \<and> adjacent M cur j) xs
             = filter (\<lambda>j. j \<notin> visited s \<and> adjacent M cur j) xs"
      using i(2) by (auto intro: filter_cong)
    have "fold_err (visit M cur) xs ?s1 =
         Inr (?s1\<lparr>queue := queue ?s1 @ filter (\<lambda>i. i \<notin> visited ?s1 \<and> adjacent M cur i) xs,
               visited := visited ?s1 \<union> set (filter (\<lambda>i. i \<notin> visited ?s1 \<and> adjacent M cur i) xs),
               not_visited := fold remove1 (filter (\<lambda>i. i \<notin> visited ?s1 \<and> adjacent M cur i) xs)
                                (not_visited ?s1),
               comp_dict := pre @ [(components ?s1,
                                    (L @ [i]) @ filter (\<lambda>i. i \<notin> visited ?s1 \<and> adjacent M cur i) xs)]\<rparr>)"
      by (rule Cons.IH[OF xs' _ _ nv1]) (use Cons.prems(4) in simp_all)
    then show ?thesis using True v unfolding flt by simp
  qed
qed


lemma sorted_wrt_remove1: "sorted_wrt P xs \<Longrightarrow> sorted_wrt P (remove1 x xs)"
  by (induction xs) (auto dest: notin_set_remove1)

lemma fold_remove1_sorted: "sorted_wrt (<) xs \<Longrightarrow> sorted_wrt (<) (fold remove1 ys xs)"
  by (induction ys arbitrary: xs) (simp_all add: sorted_wrt_remove1)

lemma fold_remove1_set:
  "distinct xs \<Longrightarrow> set (fold remove1 ys xs) = set xs - set ys"
  by (induction ys arbitrary: xs) (auto simp: distinct_remove1)

lemma bfs_step:
  assumes inv: "bfs_inv M n s" and sq: "square n M" and q: "queue s = cur # rest"
    and new: "new = filter (\<lambda>i. i \<notin> visited s \<and> adjacent M cur i) [0..<n]"
  shows "\<exists>s' pre L. fold_err (visit M cur) [0..<n] (s\<lparr>queue := rest\<rparr>) = Inr s'
          \<and> bfs_inv M n s' \<and> queue s' = rest @ new \<and> components s' = components s
          \<and> comp_dict s = pre @ [(components s, L)]
          \<and> comp_dict s' = pre @ [(components s, L @ new)]
          \<and> visited s' = visited s \<union> set new"
proof -
  let ?V = "visited s" and ?c = "components s"
  from inv have
    i1: "?V = set (concat (map snd (comp_dict s)))" and
    i2: "distinct (concat (map snd (comp_dict s)))" and
    i3: "?V \<subseteq> {0..<n}" and
    i4: "sorted_wrt (<) (not_visited s)" and
    i5: "set (not_visited s) = {0..<n} - ?V" and
    i6: "set (queue s) \<subseteq> ?V" and
    i7: "1 \<le> ?c" and
    i8: "map fst (comp_dict s) = [1..<Suc ?c]" and
    i9: "starts_min n {} (map snd (comp_dict s))" and
    i10: "\<forall>u\<in>?V. u \<notin> set (queue s) \<longrightarrow> (\<forall>i<n. adjacent M u i \<longrightarrow> i \<in> ?V)"
    unfolding bfs_inv_def by blast+
  from keys_split[OF i8 i7] obtain pre L where
    d: "comp_dict s = pre @ [(?c, L)]" and kp: "?c \<notin> fst ` set pre" by blast
  have cur: "cur < n" using i6 i3 q by auto
  let ?s0 = "s\<lparr>queue := rest\<rparr>"
  let ?s' = "?s0\<lparr>queue := queue ?s0 @ new, visited := visited ?s0 \<union> set new,
                 not_visited := fold remove1 new (not_visited ?s0),
                 comp_dict := pre @ [(components ?s0, L @ new)]\<rparr>"
  have run: "fold_err (visit M cur) [0..<n] ?s0 = Inr ?s'"
    unfolding new
    using fold_visit[OF sq cur, of "[0..<n]" ?s0 pre L] d kp i5 by simp
  have newn: "set new \<subseteq> {0..<n}" and newd: "distinct new" and newv: "set new \<inter> ?V = {}"
    unfolding new by auto
  have dnv: "distinct (not_visited s)" using i4 by (simp add: strict_sorted_iff)
  have Lne: "L \<noteq> []" and pre_sm: "starts_min n {} (map snd pre)"
    and hdL: "hd L = Min ({0..<n} - ({} \<union> set (concat (map snd pre))))"
    using i9 by (simp_all add: d starts_min_append)
  have cc: "concat (map snd (pre @ [(?c, L @ new)])) = concat (map snd (comp_dict s)) @ new"
    by (simp add: d)
  have cs: "set (concat (map snd (pre @ [(?c, L @ new)]))) = ?V \<union> set new"
    unfolding cc i1 by (simp del: set_concat)
  have cd: "distinct (concat (map snd (pre @ [(?c, L @ new)])))"
    unfolding cc using i2 newd newv i1 by (simp add: Int_commute del: set_concat)
  have inv': "bfs_inv M n ?s'"
    unfolding bfs_inv_def
  proof (intro conjI)
    show "visited ?s' = set (concat (map snd (comp_dict ?s')))"
      using cs by simp
    show "distinct (concat (map snd (comp_dict ?s')))"
      using cd by simp
    show "visited ?s' \<subseteq> {0..<n}" using i3 newn by simp
    show "sorted_wrt (<) (not_visited ?s')" using i4 by (simp add: fold_remove1_sorted)
    show "set (not_visited ?s') = {0..<n} - visited ?s'"
      using i5 dnv by (auto simp: fold_remove1_set)
    show "set (queue ?s') \<subseteq> visited ?s'" using i6 q by auto
    show "1 \<le> components ?s'" using i7 by simp
    show "map fst (comp_dict ?s') = [1..<Suc (components ?s')]" using i8 by (simp add: d)
    show "starts_min n {} (map snd (comp_dict ?s'))"
      using pre_sm Lne hdL by (simp add: starts_min_append)
    show "\<forall>u\<in>visited ?s'. u \<notin> set (queue ?s') \<longrightarrow> (\<forall>i<n. adjacent M u i \<longrightarrow> i \<in> visited ?s')"
    proof (intro ballI impI allI)
      fix u i assume u: "u \<in> visited ?s'" "u \<notin> set (queue ?s')" and i: "i < n" "adjacent M u i"
      from u have uV: "u \<in> ?V" "u \<notin> set rest" "u \<notin> set new" by auto
      show "i \<in> visited ?s'"
      proof (cases "u = cur")
        case True
        with i show ?thesis unfolding new by auto
      next
        case False
        with uV q have "u \<notin> set (queue s)" by simp
        with i10 uV(1) i show ?thesis by auto
      qed
    qed
  qed
  from run inv' d show ?thesis by (intro exI[of _ ?s'] exI[of _ pre] exI[of _ L]) simp
qed


end
